theory Spec2Isabelle
  imports Main "HOL-Library.Signed_Division"
begin

section \<open>Data model of the Puyo game component\<close>

text \<open>
  The embedding follows \<^verbatim>\<open>PuyoGameComponent\<close> of \<^verbatim>\<open>src/app/page.tsx\<close>.
  A \<^verbatim>\<open>PuyoColor\<close> is one of four colour strings or \<^verbatim>\<open>null\<close>; a cell of the
  grid is therefore an optional colour, with \<^verbatim>\<open>null\<close> as \<open>None\<close>. A \<^verbatim>\<open>Grid\<close> is
  an array of rows, each an array of cells, indexed \<^verbatim>\<open>grid[y][x]\<close>. Coordinates
  are JavaScript numbers that only ever hold integers, so they are \<open>int\<close>.
\<close>

datatype PuyoColor = Red | Green | Blue | Yellow

type_synonym Cell = "PuyoColor option"

datatype GameState = Title | Active | Over | Pause

type_synonym Grid = "Cell list list"

definition GRID_ROWS :: int where
  "GRID_ROWS = 12"

definition GRID_COLS :: int where
  "GRID_COLS = 6"

definition COLORS :: "Cell list" where
  "COLORS = [Some Red, Some Green, Some Blue, Some Yellow]"

definition createEmptyGrid :: Grid where
  "createEmptyGrid = replicate (nat GRID_ROWS) (replicate (nat GRID_COLS) None)"

text \<open>
  The fields \<^verbatim>\<open>x\<close> and \<^verbatim>\<open>y\<close> of the interface \<^verbatim>\<open>PuyoPair\<close> are named
  \<open>puyo_x\<close> and \<open>puyo_y\<close>, so that \<open>x\<close> and \<open>y\<close> stay free for variables.
\<close>

record PuyoPair =
  color1 :: Cell
  color2 :: Cell
  puyo_x :: int
  puyo_y :: int
  rotation :: int

text \<open>
  Every grid the component creates has twelve rows of six cells, and no operation
  changes these dimensions; \<open>wf_grid\<close> states it. The read \<^verbatim>\<open>grid[y][x]\<close> is
  \<open>cellAt\<close>; the source guards each such read by its own bounds tests.
\<close>

definition wf_grid :: "Grid \<Rightarrow> bool" where
  "wf_grid g = (int (length g) = GRID_ROWS \<and> list_all (\<lambda>row. int (length row) = GRID_COLS) g)"

definition cellAt :: "Grid \<Rightarrow> int \<Rightarrow> int \<Rightarrow> Cell" where
  "cellAt g x y = g ! nat y ! nat x"

definition in_bounds :: "int \<Rightarrow> int \<Rightarrow> bool" where
  "in_bounds x y = (0 \<le> x \<and> x < GRID_COLS \<and> 0 \<le> y \<and> y < GRID_ROWS)"

section \<open>Movement validator\<close>

fun getSecondPuyoPosition :: "int \<Rightarrow> int \<Rightarrow> int \<Rightarrow> int \<times> int" where
  "getSecondPuyoPosition x y rot =
     (if rot = 0 then (x, y - 1)
      else if rot = 1 then (x + 1, y)
      else if rot = 2 then (x, y + 1)
      else if rot = 3 then (x - 1, y)
      else (x, y))"

text \<open>
  \<^verbatim>\<open>!grid[y][x]\<close> is true exactly for \<^verbatim>\<open>null\<close>: the colour strings are non-empty
  and hence truthy. The conjunction is evaluated left to right, so the two reads
  happen only for indices inside the grid.
\<close>

definition isValidMove :: "Grid \<Rightarrow> PuyoPair \<Rightarrow> bool" where
  "isValidMove g puyo =
     (case getSecondPuyoPosition (puyo_x puyo) (puyo_y puyo) (rotation puyo) of
        (x2, y2) \<Rightarrow>
          puyo_x puyo \<ge> 0 \<and> puyo_x puyo < GRID_COLS \<and> puyo_y puyo \<ge> 0 \<and> puyo_y puyo < GRID_ROWS \<and>
          x2 \<ge> 0 \<and> x2 < GRID_COLS \<and> y2 \<ge> 0 \<and> y2 < GRID_ROWS \<and>
          cellAt g (puyo_x puyo) (puyo_y puyo) = None \<and> cellAt g x2 y2 = None)"

text \<open>
  The specification's reading of a legal move: the second cell is the anchor moved by
  the orientation's offset (up, right, down, left), both cells are columns
  \<open>0 \<le> col < 6\<close> and rows \<open>0 \<le> row < 12\<close>, and both are empty in the grid.
\<close>

definition orientation_offset :: "int \<Rightarrow> int \<times> int" where
  "orientation_offset rot =
     (if rot = 0 then (0, -1) else if rot = 1 then (1, 0) else if rot = 2 then (0, 1) else (-1, 0))"

definition legal_move_spec :: "Grid \<Rightarrow> PuyoPair \<Rightarrow> bool" where
  "legal_move_spec g p =
     (let col = puyo_x p; row = puyo_y p;
          col2 = col + fst (orientation_offset (rotation p));
          row2 = row + snd (orientation_offset (rotation p))
      in (0 \<le> col \<and> col < 6 \<and> 0 \<le> row \<and> row < 12) \<and>
         (0 \<le> col2 \<and> col2 < 6 \<and> 0 \<le> row2 \<and> row2 < 12) \<and>
         g ! nat row ! nat col = None \<and> g ! nat row2 ! nat col2 = None)"

section \<open>Match resolver\<close>

subsection \<open>Connected same-colour cells\<close>

text \<open>
  A \<^verbatim>\<open>Set<string>\<close> of keys \<^verbatim>\<open>`${x},${y}`\<close> is a list of coordinate pairs without
  repetition, in insertion order: \<^verbatim>\<open>has\<close> is membership, \<^verbatim>\<open>add\<close> appends a key
  that is absent, \<^verbatim>\<open>size\<close> is the length and \<^verbatim>\<open>forEach\<close> is a fold.
  \<^verbatim>\<open>findConnectedPuyos\<close> mutates the one set \<^verbatim>\<open>visited\<close> through its four
  recursive calls, so each call continues from the set the previous one returned.
\<close>

function findConnectedPuyos ::
  "Grid \<Rightarrow> int \<Rightarrow> int \<Rightarrow> Cell \<Rightarrow> (int \<times> int) list \<Rightarrow> (int \<times> int) list" where
  "findConnectedPuyos g x y color visited =
     (if x < 0 \<or> x \<ge> GRID_COLS \<or> y < 0 \<or> y \<ge> GRID_ROWS \<or>
         cellAt g x y \<noteq> color \<or> (x, y) \<in> set visited
      then visited
      else
        let v0 = visited @ [(x, y)];
            v1 = findConnectedPuyos g (x + 1) y color v0;
            v2 = findConnectedPuyos g (x - 1) y color v1;
            v3 = findConnectedPuyos g x (y + 1) color v2;
            v4 = findConnectedPuyos g x (y - 1) color v3
        in v4)"
  by pat_completeness auto

definition all_cells :: "(int \<times> int) set" where
  "all_cells = {0..<GRID_COLS} \<times> {0..<GRID_ROWS}"

lemma findConnectedPuyos_dom_mono:
  "findConnectedPuyos_dom (g, x, y, c, v) \<Longrightarrow> set v \<subseteq> set (findConnectedPuyos g x y c v)"
proof (induction g x y c v rule: findConnectedPuyos.pinduct)
  case (1 g x y color visited)
  show ?case
  proof (cases "x < 0 \<or> x \<ge> GRID_COLS \<or> y < 0 \<or> y \<ge> GRID_ROWS \<or>
         cellAt g x y \<noteq> color \<or> (x, y) \<in> set visited")
    case True
    then show ?thesis using "1.hyps" by (simp add: findConnectedPuyos.psimps)
  next
    case False
    note ih = "1.IH"[OF False]
    let ?v0 = "visited @ [(x, y)]"
    let ?v1 = "findConnectedPuyos g (x + 1) y color ?v0"
    let ?v2 = "findConnectedPuyos g (x - 1) y color ?v1"
    let ?v3 = "findConnectedPuyos g x (y + 1) color ?v2"
    let ?v4 = "findConnectedPuyos g x (y - 1) color ?v3"
    have a: "set ?v0 \<subseteq> set ?v1" using ih(1) by simp
    have b: "set ?v1 \<subseteq> set ?v2" using ih(2) by simp
    have c: "set ?v2 \<subseteq> set ?v3" using ih(3) by simp
    have d: "set ?v3 \<subseteq> set ?v4" using ih(4) by simp
    have "findConnectedPuyos g x y color visited = ?v4"
      using False "1.hyps" by (simp add: findConnectedPuyos.psimps Let_def)
    then show ?thesis using a b c d by auto
  qed
qed

lemma finite_all_cells: "finite all_cells"
  by (simp add: all_cells_def)

lemma card_unvisited_less:
  assumes "(x, y) \<in> all_cells" "(x, y) \<notin> set v" "set (v @ [(x, y)]) \<subseteq> set w"
  shows "card (all_cells - set w) < card (all_cells - set v)"
proof (rule psubset_card_mono)
  show "finite (all_cells - set v)" using finite_all_cells by simp
  show "all_cells - set w \<subset> all_cells - set v" using assms by auto
qed

termination findConnectedPuyos
proof (relation "measure (\<lambda>(g, x, y, c, v). card (all_cells - set v))", goal_cases)
  case 1
  then show ?case by simp
next
  case (2 g x y color visited v0)
  then have "(x, y) \<in> all_cells" "(x, y) \<notin> set visited"
    by (auto simp: all_cells_def)
  moreover have "set (visited @ [(x, y)]) \<subseteq> set v0" using 2 by simp
  ultimately have "card (all_cells - set v0) < card (all_cells - set visited)"
    by (rule card_unvisited_less)
  then show ?case by simp
next
  case (3 g x y color visited v0 v1)
  then have "(x, y) \<in> all_cells" "(x, y) \<notin> set visited"
    by (auto simp: all_cells_def)
  moreover have "set (visited @ [(x, y)]) \<subseteq> set v1"
    using 3 findConnectedPuyos_dom_mono by blast
  ultimately have "card (all_cells - set v1) < card (all_cells - set visited)"
    by (rule card_unvisited_less)
  then show ?case by simp
next
  case (4 g x y color visited v0 v1 v2)
  then have "(x, y) \<in> all_cells" "(x, y) \<notin> set visited"
    by (auto simp: all_cells_def)
  moreover have "set (visited @ [(x, y)]) \<subseteq> set v2"
    using 4 findConnectedPuyos_dom_mono by blast
  ultimately have "card (all_cells - set v2) < card (all_cells - set visited)"
    by (rule card_unvisited_less)
  then show ?case by simp
next
  case (5 g x y color visited v0 v1 v2 v3)
  then have "(x, y) \<in> all_cells" "(x, y) \<notin> set visited"
    by (auto simp: all_cells_def)
  moreover have "set (visited @ [(x, y)]) \<subseteq> set v3"
    using 5 findConnectedPuyos_dom_mono by blast
  ultimately have "card (all_cells - set v3) < card (all_cells - set visited)"
    by (rule card_unvisited_less)
  then show ?case by simp
qed

declare findConnectedPuyos.simps [simp del]

subsection \<open>One pass: discovery, removal, points, gravity\<close>

definition set_add :: "'a \<Rightarrow> 'a list \<Rightarrow> 'a list" where
  "set_add k s = (if k \<in> set s then s else s @ [k])"

text \<open>
  The body of the two scanning loops at cell \<open>(x, y)\<close>; the accumulator is the pair
  of \<^verbatim>\<open>hasMatches\<close> and \<^verbatim>\<open>matchedPuyos\<close>. \<^verbatim>\<open>if (newGrid[y][x])\<close> holds for a colour
  and fails for \<^verbatim>\<open>null\<close>.
\<close>

definition scanCell ::
  "Grid \<Rightarrow> int \<Rightarrow> int \<Rightarrow> bool \<times> (int \<times> int) list \<Rightarrow> bool \<times> (int \<times> int) list" where
  "scanCell g y x acc =
     (if cellAt g x y \<noteq> None then
        let matches = findConnectedPuyos g x y (cellAt g x y) []
        in if length matches \<ge> 4 then (True, fold set_add matches (snd acc)) else acc
      else acc)"

definition findMatches :: "Grid \<Rightarrow> bool \<times> (int \<times> int) list" where
  "findMatches g =
     fold (\<lambda>y acc. fold (\<lambda>x acc. scanCell g y x acc) [0..GRID_COLS - 1] acc)
       [0..GRID_ROWS - 1] (False, [])"

text \<open>
  \<^verbatim>\<open>newGrid[y][x] = v\<close> inside the resolver, where the indices come from the loops
  over the grid or from keys the search returned.
\<close>

definition setCell :: "Grid \<Rightarrow> int \<Rightarrow> int \<Rightarrow> Cell \<Rightarrow> Grid" where
  "setCell g x y v = g[nat y := (g ! nat y)[nat x := v]]"

definition removeMatched :: "Grid \<Rightarrow> (int \<times> int) list \<Rightarrow> Grid" where
  "removeMatched g matchedPuyos = fold (\<lambda>(x, y) g. setCell g x y None) matchedPuyos g"

definition passPoints :: "nat \<Rightarrow> nat \<Rightarrow> int" where
  "passPoints puyosCleared chainCount =
     (let chainMultiplier = 2 ^ (chainCount - 1);
          groupSizeBonus = max 0 (int puyosCleared - 4) * 5
      in int puyosCleared * 10 * chainMultiplier + groupSizeBonus)"

text \<open>
  The inner loop of \<^verbatim>\<open>applyGravity\<close> for column \<open>x\<close>: the first argument counts the
  rows still to visit, so the row visited is \<open>y = n\<close> in the equation for \<open>Suc n\<close>,
  from \<open>GRID_ROWS - 1\<close> down to \<open>0\<close>.
\<close>

fun gravityColumn :: "int \<Rightarrow> nat \<Rightarrow> int \<Rightarrow> Grid \<Rightarrow> Grid" where
  "gravityColumn x 0 writeY g = g"
| "gravityColumn x (Suc n) writeY g =
     (let y = int n in
      if cellAt g x y \<noteq> None then
        let g1 = setCell g x writeY (cellAt g x y);
            g2 = (if writeY \<noteq> y then setCell g1 x y None else g1)
        in gravityColumn x n (writeY - 1) g2
      else gravityColumn x n writeY g)"

definition applyGravity :: "Grid \<Rightarrow> Grid" where
  "applyGravity g =
     fold (\<lambda>x g. gravityColumn x (nat GRID_ROWS) (GRID_ROWS - 1) g) [0..GRID_COLS - 1] g"

subsection \<open>The chain loop\<close>

text \<open>
  The \<^verbatim>\<open>do ... while (hasMatches)\<close> loop of \<^verbatim>\<open>checkForMatches\<close>, with the running
  score and \<^verbatim>\<open>chainCount\<close> as arguments. Its result is \<open>None\<close> when the loop does
  not return. The score is a JavaScript number holding an integer; the model keeps the
  integer, which is the value of the number as long as the score stays within
  \<open>2 ^ 53\<close>, where the additions of the code are exact.
\<close>

partial_function (option) resolveLoop ::
  "Grid \<Rightarrow> nat \<Rightarrow> int \<Rightarrow> (Grid \<times> nat \<times> int) option" where
  "resolveLoop newGrid chainCount runningScore =
     (case findMatches newGrid of
        (hasMatches, matchedPuyos) \<Rightarrow>
          if hasMatches then
            resolveLoop (applyGravity (removeMatched newGrid matchedPuyos)) (chainCount + 1)
              (runningScore + passPoints (length matchedPuyos) (chainCount + 1))
          else Some (newGrid, chainCount, runningScore))"

section \<open>Game controller\<close>

text \<open>
  The state hooks of the component. The high score and the audio context are outside
  the engine and are left out. \<^verbatim>\<open>generatePuyoPair\<close> draws two colours from
  \<^verbatim>\<open>COLORS\<close> at random; the model takes the two colours drawn as arguments.
\<close>

record Game =
  grid :: Grid
  gameState :: GameState
  score :: int
  currentPuyo :: "PuyoPair option"
  nextPuyo :: "PuyoPair option"
  chainCounter :: nat
  isPaused :: bool

datatype error = TypeError

datatype Direction = Left | Right | Down

datatype RotateDirection = RotateLeft | RotateRight

definition generatePuyoPair :: "PuyoColor \<Rightarrow> PuyoColor \<Rightarrow> PuyoPair" where
  "generatePuyoPair c1 c2 =
     \<lparr>color1 = Some c1, color2 = Some c2, puyo_x = 2, puyo_y = 0, rotation = 0\<rparr>"

definition initialGame :: Game where
  "initialGame =
     \<lparr>grid = createEmptyGrid, gameState = Title, score = 0, currentPuyo = None,
      nextPuyo = None, chainCounter = 0, isPaused = False\<rparr>"

definition startGame :: "PuyoColor \<Rightarrow> PuyoColor \<Rightarrow> PuyoColor \<Rightarrow> PuyoColor \<Rightarrow> Game \<Rightarrow> Game" where
  "startGame c1 c2 c3 c4 s =
     s\<lparr>grid := createEmptyGrid, score := 0, chainCounter := 0,
       currentPuyo := Some (generatePuyoPair c1 c2), nextPuyo := Some (generatePuyoPair c3 c4),
       gameState := Active, isPaused := False\<rparr>"

definition togglePause :: "Game \<Rightarrow> Game" where
  "togglePause s = s\<lparr>isPaused := \<not> isPaused s\<rparr>"

text \<open>
  \<^verbatim>\<open>newGrid[y][x] = v\<close> in \<^verbatim>\<open>placePuyo\<close>, which tests no index. A row index outside
  the array reads \<^verbatim>\<open>undefined\<close> and the assignment throws a \<^verbatim>\<open>TypeError\<close>. A
  column index outside the row does not throw: a negative one adds a property and
  leaves the cells alone, one past the end extends the row (the holes of the
  extended row read like empty cells in every later test).
\<close>

definition writeCell :: "Grid \<Rightarrow> int \<Rightarrow> int \<Rightarrow> Cell \<Rightarrow> error + Grid" where
  "writeCell g x y v =
     (if y < 0 \<or> int (length g) \<le> y then Inl TypeError
      else
        let row = g ! nat y;
            row' = (if x < 0 then row
                    else if x < int (length row) then row[nat x := v]
                    else row @ replicate (nat x - length row) None @ [v])
        in Inr (g[nat y := row']))"

text \<open>
  The two assignments of \<^verbatim>\<open>placePuyo\<close>. When the second one throws, the first has
  already changed a row of the grid in place and no state hook has been set; the model
  returns the error alone.
\<close>

definition commitPuyo :: "Grid \<Rightarrow> PuyoPair \<Rightarrow> error + Grid" where
  "commitPuyo g p =
     (case getSecondPuyoPosition (puyo_x p) (puyo_y p) (rotation p) of
        (x2, y2) \<Rightarrow>
          (case writeCell g (puyo_x p) (puyo_y p) (color1 p) of
             Inl e \<Rightarrow> Inl e
           | Inr g1 \<Rightarrow> writeCell g1 x2 y2 (color2 p)))"

text \<open>
  \<^verbatim>\<open>checkForMatches\<close> after its loop: the grid, the next piece, the fresh piece, the
  chain counter and the game-over test on row 1.
\<close>

definition checkForMatches :: "PuyoColor \<Rightarrow> PuyoColor \<Rightarrow> Grid \<Rightarrow> Game \<Rightarrow> Game option" where
  "checkForMatches c1 c2 g s =
     (case resolveLoop g 0 (score s) of
        None \<Rightarrow> None
      | Some (newGrid, chainCount, runningScore) \<Rightarrow>
          Some (s\<lparr>grid := newGrid, score := runningScore, currentPuyo := nextPuyo s,
                  nextPuyo := Some (generatePuyoPair c1 c2), chainCounter := 0,
                  gameState := (if list_ex (\<lambda>cell. cell \<noteq> None) (newGrid ! 1) then Over
                                else gameState s)\<rparr>))"

definition placePuyo :: "PuyoColor \<Rightarrow> PuyoColor \<Rightarrow> Game \<Rightarrow> (error + Game) option" where
  "placePuyo c1 c2 s =
     (case currentPuyo s of
        None \<Rightarrow> Some (Inr s)
      | Some p \<Rightarrow>
          (case commitPuyo (grid s) p of
             Inl e \<Rightarrow> Some (Inl e)
           | Inr newGrid \<Rightarrow>
               map_option Inr
                 (checkForMatches c1 c2 newGrid (s\<lparr>grid := newGrid, currentPuyo := None\<rparr>))))"

definition shiftPuyo :: "Direction \<Rightarrow> PuyoPair \<Rightarrow> PuyoPair" where
  "shiftPuyo direction p =
     (case direction of
        Left \<Rightarrow> p\<lparr>puyo_x := puyo_x p - 1\<rparr>
      | Right \<Rightarrow> p\<lparr>puyo_x := puyo_x p + 1\<rparr>
      | Down \<Rightarrow> p\<lparr>puyo_y := puyo_y p + 1\<rparr>)"

definition movePuyo :: "PuyoColor \<Rightarrow> PuyoColor \<Rightarrow> Direction \<Rightarrow> Game \<Rightarrow> (error + Game) option" where
  "movePuyo c1 c2 direction s =
     (case currentPuyo s of
        None \<Rightarrow> Some (Inr s)
      | Some p \<Rightarrow>
          if gameState s \<noteq> Active \<or> isPaused s then Some (Inr s)
          else
            let newPuyo = shiftPuyo direction p
            in if isValidMove (grid s) newPuyo then Some (Inr (s\<lparr>currentPuyo := Some newPuyo\<rparr>))
               else if direction = Down then placePuyo c1 c2 s
               else Some (Inr s))"

text \<open>
  JavaScript's \<^verbatim>\<open>%\<close> takes the sign of the dividend, as \<open>smod\<close> does.
\<close>

definition turnPuyo :: "RotateDirection \<Rightarrow> PuyoPair \<Rightarrow> PuyoPair" where
  "turnPuyo direction p =
     p\<lparr>rotation := (rotation p + (if direction = RotateLeft then - 1 else 1) + 4) smod 4\<rparr>"

definition rotatePuyo :: "RotateDirection \<Rightarrow> Game \<Rightarrow> Game" where
  "rotatePuyo direction s =
     (case currentPuyo s of
        None \<Rightarrow> s
      | Some p \<Rightarrow>
          if gameState s \<noteq> Active \<or> isPaused s then s
          else
            let newPuyo = turnPuyo direction p
            in if isValidMove (grid s) newPuyo then s\<lparr>currentPuyo := Some newPuyo\<rparr> else s)"

text \<open>
  The events the component reacts to: the start button, the pause toggle, the three
  moves (keys and the one-second timer both call \<^verbatim>\<open>movePuyo\<close>) and the two turns. A
  move carries the two colours of the piece that is generated if the piece lands.
\<close>

datatype Event =
    StartGame PuyoColor PuyoColor PuyoColor PuyoColor
  | TogglePause
  | Move Direction PuyoColor PuyoColor
  | Rotate RotateDirection

fun handleEvent :: "Event \<Rightarrow> Game \<Rightarrow> (error + Game) option" where
  "handleEvent (StartGame c1 c2 c3 c4) s = Some (Inr (startGame c1 c2 c3 c4 s))"
| "handleEvent TogglePause s = Some (Inr (togglePause s))"
| "handleEvent (Move direction c1 c2) s = movePuyo c1 c2 direction s"
| "handleEvent (Rotate direction) s = Some (Inr (rotatePuyo direction s))"

inductive reachable :: "Game \<Rightarrow> bool" where
  reachable_init: "reachable initialGame"
| reachable_step: "reachable s \<Longrightarrow> handleEvent e s = Some (Inr s') \<Longrightarrow> reachable s'"

section \<open>Notions of the specification\<close>

text \<open>
  Column \<open>x\<close> of a grid, read from the top row to the bottom row, and the stable
  partition of a column that keeps the order of the cells and puts the empty ones
  first, that is the non-empty ones at the bottom.
\<close>

definition column :: "Grid \<Rightarrow> int \<Rightarrow> Cell list" where
  "column g x = map (\<lambda>row. row ! nat x) g"

definition settled :: "Cell list \<Rightarrow> Cell list" where
  "settled col = filter (\<lambda>c. c = None) col @ filter (\<lambda>c. c \<noteq> None) col"

text \<open>
  Two cells are adjacent when they are one step apart horizontally or vertically. The
  group of a cell is the set of cells reached from it by steps between adjacent cells
  of the grid that hold the colour of the starting cell; a cell qualifies when it is
  non-empty and its group has at least four cells.
\<close>

definition adjacent :: "int \<times> int \<Rightarrow> int \<times> int \<Rightarrow> bool" where
  "adjacent p q = (\<bar>fst p - fst q\<bar> + \<bar>snd p - snd q\<bar> = 1)"

definition colored :: "Grid \<Rightarrow> Cell \<Rightarrow> int \<times> int \<Rightarrow> bool" where
  "colored g c p = (p \<in> all_cells \<and> cellAt g (fst p) (snd p) = c)"

definition same_color_steps :: "Grid \<Rightarrow> Cell \<Rightarrow> ((int \<times> int) \<times> (int \<times> int)) set" where
  "same_color_steps g c = {(p, q). colored g c p \<and> colored g c q \<and> adjacent p q}"

definition group_of :: "Grid \<Rightarrow> int \<Rightarrow> int \<Rightarrow> (int \<times> int) set" where
  "group_of g x y = {q. ((x, y), q) \<in> (same_color_steps g (cellAt g x y))\<^sup>*}"

definition qualifies :: "Grid \<Rightarrow> int \<times> int \<Rightarrow> bool" where
  "qualifies g p = (cellAt g (fst p) (snd p) \<noteq> None \<and> 4 \<le> card (group_of g (fst p) (snd p)))"

text \<open>
  The number of non-empty cells of the grid, counted column by column, the grid after
  the removal step of one pass, and the grid after the whole pass.
\<close>

definition occupied_count :: "Grid \<Rightarrow> nat" where
  "occupied_count g =
     (\<Sum>x\<leftarrow>[0..GRID_COLS - 1]. length (filter (\<lambda>c. c \<noteq> None) (column g x)))"

definition clearPass :: "Grid \<Rightarrow> Grid" where
  "clearPass g = removeMatched g (snd (findMatches g))"

definition resolvePass :: "Grid \<Rightarrow> Grid" where
  "resolvePass g = applyGravity (clearPass g)"

text \<open>
  Auxiliary notions of the proofs: the invariant of the search, relating the set
  \<open>v\<close> it is called with and the set \<open>r\<close> it returns, and the cells in the order
  the scanning loops visit them.
\<close>

definition fcp_inv ::
  "Grid \<Rightarrow> Cell \<Rightarrow> int \<times> int \<Rightarrow> (int \<times> int) list \<Rightarrow> (int \<times> int) list \<Rightarrow> bool" where
  "fcp_inv g c s v r =
     (set v \<subseteq> set r \<and> (distinct v \<longrightarrow> distinct r) \<and>
      (\<forall>p \<in> set r - set v. colored g c s \<and> colored g c p \<and> (s, p) \<in> (same_color_steps g c)\<^sup>*) \<and>
      (colored g c s \<longrightarrow> s \<in> set r) \<and>
      (\<forall>p \<in> set r - set v. \<forall>q. colored g c q \<and> adjacent p q \<longrightarrow> q \<in> set r))"

definition scan_order :: "(int \<times> int) list" where
  "scan_order = concat (map (\<lambda>y. map (\<lambda>x. (x, y)) [0..GRID_COLS - 1]) [0..GRID_ROWS - 1])"

text \<open>
  The points of the specification for one pass that clears \<open>cleared\<close> cells as
  pass number \<open>chainCount\<close>, and for a run of passes given by the numbers of cells
  they clear, the first of them being pass number \<open>chainCount\<close>. The numbers of
  cells the passes of one resolver call clear: the count is taken on the grid before
  each pass, and the first argument bounds the number of passes looked at (the number
  of occupied cells is always enough, since a pass that clears removes cells).
\<close>

definition pass_points_spec :: "nat \<Rightarrow> nat \<Rightarrow> int" where
  "pass_points_spec cleared chainCount =
     int cleared * 10 * 2 ^ (chainCount - 1) + max 0 (int cleared - 4) * 5"

fun chain_points_spec :: "nat \<Rightarrow> nat list \<Rightarrow> int" where
  "chain_points_spec chainCount [] = 0"
| "chain_points_spec chainCount (cleared # rest) =
     pass_points_spec cleared chainCount + chain_points_spec (chainCount + 1) rest"

fun cleared_per_pass :: "nat \<Rightarrow> Grid \<Rightarrow> nat list" where
  "cleared_per_pass 0 g = []"
| "cleared_per_pass (Suc k) g =
     (if fst (findMatches g)
      then (occupied_count g - occupied_count (clearPass g)) # cleared_per_pass k (resolvePass g)
      else [])"

text \<open>
  Notions for the states the component can reach. A freshly generated piece is
  spawn-shaped; while the game is active, the grid has its twelve by six cells with
  rows 0 and 1 empty, the falling piece has two colours, an orientation from 0 to 3 and
  is either in a valid position or spawn-shaped, and the queued piece is a generated
  one. \<open>runEvents\<close> feeds a list of events to the handlers, stopping at the first
  one that does not return a state.
\<close>

definition spawn_shaped :: "PuyoPair \<Rightarrow> bool" where
  "spawn_shaped p = (puyo_x p = 2 \<and> puyo_y p = 0 \<and> rotation p = 0)"

definition top_rows_empty :: "Grid \<Rightarrow> bool" where
  "top_rows_empty g = (\<forall>x. 0 \<le> x \<and> x < GRID_COLS \<longrightarrow> cellAt g x 0 = None \<and> cellAt g x 1 = None)"

definition piece_ok :: "Grid \<Rightarrow> PuyoPair \<Rightarrow> bool" where
  "piece_ok g p =
     (color1 p \<noteq> None \<and> color2 p \<noteq> None \<and> rotation p \<in> {0, 1, 2, 3} \<and>
      (isValidMove g p \<or> spawn_shaped p))"

definition queued_ok :: "PuyoPair \<Rightarrow> bool" where
  "queued_ok p = (color1 p \<noteq> None \<and> color2 p \<noteq> None \<and> spawn_shaped p)"

definition game_inv :: "Game \<Rightarrow> bool" where
  "game_inv s =
     (gameState s = Active \<longrightarrow>
        wf_grid (grid s) \<and> top_rows_empty (grid s) \<and>
        (case currentPuyo s of None \<Rightarrow> True | Some p \<Rightarrow> piece_ok (grid s) p) \<and>
        (case nextPuyo s of None \<Rightarrow> True | Some p \<Rightarrow> queued_ok p))"

fun runEvents :: "Event list \<Rightarrow> Game \<Rightarrow> (error + Game) option" where
  "runEvents [] s = Some (Inr s)"
| "runEvents (e # es) s =
     (case handleEvent e s of
        Some (Inr s') \<Rightarrow> runEvents es s'
      | other \<Rightarrow> other)"

section \<open>Example grids\<close>

definition example_floor_grid :: Grid where
  "example_floor_grid =
     replicate 11 (replicate 6 None) @ [[Some Red, Some Green, None, None, None, None]]"

definition example_float_grid :: Grid where
  "example_float_grid =
     [[None, None, None, None, None, None],
      [None, None, None, None, None, None],
      [None, None, None, None, None, None],
      [None, None, None, None, None, None],
      [None, None, None, None, None, None],
      [None, None, None, None, None, None],
      [None, None, None, None, None, None],
      [None, None, None, None, None, None],
      [None, None, None, None, None, None],
      [Some Red, None, Some Blue, None, None, None],
      [None, None, None, None, None, None],
      [Some Green, None, None, None, None, Some Yellow]]"

definition example_L_grid :: Grid where
  "example_L_grid =
     [[None, None, None, None, None, None],
      [None, None, None, None, None, None],
      [None, None, None, None, None, None],
      [None, None, None, None, None, None],
      [None, None, None, None, None, None],
      [None, None, None, None, None, None],
      [None, None, None, None, None, None],
      [None, None, None, None, None, None],
      [None, None, None, None, None, None],
      [Some Red, None, None, None, None, None],
      [Some Red, None, None, Some Blue, None, None],
      [Some Red, Some Red, None, Some Blue, Some Blue, None]]"

definition example_L_cleared :: Grid where
  "example_L_cleared =
     [[None, None, None, None, None, None],
      [None, None, None, None, None, None],
      [None, None, None, None, None, None],
      [None, None, None, None, None, None],
      [None, None, None, None, None, None],
      [None, None, None, None, None, None],
      [None, None, None, None, None, None],
      [None, None, None, None, None, None],
      [None, None, None, None, None, None],
      [None, None, None, None, None, None],
      [None, None, None, Some Blue, None, None],
      [None, None, None, Some Blue, Some Blue, None]]"

definition example_cascade_grid :: Grid where
  "example_cascade_grid =
     [[None, None, None, None, None, None],
      [None, None, None, None, None, None],
      [None, None, None, None, None, None],
      [None, None, None, None, None, None],
      [None, None, None, None, None, None],
      [None, None, None, None, None, None],
      [None, None, None, None, None, None],
      [Some Blue, None, None, None, None, None],
      [Some Red, None, None, None, None, None],
      [Some Red, None, None, None, None, None],
      [Some Red, Some Red, None, None, None, Some Green],
      [Some Blue, Some Blue, Some Blue, None, None, Some Yellow]]"

definition example_cascade_mid :: Grid where
  "example_cascade_mid =
     [[None, None, None, None, None, None],
      [None, None, None, None, None, None],
      [None, None, None, None, None, None],
      [None, None, None, None, None, None],
      [None, None, None, None, None, None],
      [None, None, None, None, None, None],
      [None, None, None, None, None, None],
      [None, None, None, None, None, None],
      [None, None, None, None, None, None],
      [None, None, None, None, None, None],
      [Some Blue, None, None, None, None, Some Green],
      [Some Blue, Some Blue, Some Blue, None, None, Some Yellow]]"

definition example_cascade_end :: Grid where
  "example_cascade_end =
     [[None, None, None, None, None, None],
      [None, None, None, None, None, None],
      [None, None, None, None, None, None],
      [None, None, None, None, None, None],
      [None, None, None, None, None, None],
      [None, None, None, None, None, None],
      [None, None, None, None, None, None],
      [None, None, None, None, None, None],
      [None, None, None, None, None, None],
      [None, None, None, None, None, None],
      [None, None, None, None, None, Some Green],
      [None, None, None, None, None, Some Yellow]]"

definition example_tall_grid :: Grid where
  "example_tall_grid =
     [[None, None, None, None, None, None],
      [None, None, Some Red, None, None, None],
      [None, None, Some Blue, None, None, None],
      [None, None, Some Red, None, None, None],
      [None, None, Some Blue, None, None, None],
      [None, None, Some Red, None, None, None],
      [None, None, Some Blue, None, None, None],
      [None, None, Some Red, None, None, None],
      [None, None, Some Blue, None, None, None],
      [None, None, Some Red, None, None, None],
      [None, None, Some Blue, None, None, None],
      [None, None, Some Red, None, None, None]]"

definition example_game :: Game where
  "example_game =
     \<lparr>grid = createEmptyGrid, gameState = Active, score = 0, currentPuyo = None,
      nextPuyo = Some (generatePuyoPair Green Yellow), chainCounter = 0, isPaused = False\<rparr>"

definition example_edge_game :: Game where
  "example_edge_game =
     \<lparr>grid = example_tall_grid, gameState = Active, score = 70,
      currentPuyo = Some \<lparr>color1 = Some Green, color2 = Some Yellow, puyo_x = 0, puyo_y = 5, rotation = 0\<rparr>,
      nextPuyo = Some (generatePuyoPair Green Yellow), chainCounter = 0, isPaused = False\<rparr>"

definition example_stack_grid :: Grid where
  "example_stack_grid =
     [[None, None, None, None, None, None],
      [None, None, None, None, None, None],
      [None, None, None, None, None, None],
      [None, None, None, None, None, None],
      [None, None, None, None, None, None],
      [None, None, None, None, None, None],
      [None, None, Some Blue, None, None, None],
      [None, None, Some Red, None, None, None],
      [None, None, Some Blue, None, None, None],
      [None, None, Some Red, None, None, None],
      [None, None, Some Blue, None, None, None],
      [None, None, Some Red, None, None, None]]"

definition example_landing_game :: Game where
  "example_landing_game =
     \<lparr>grid = example_stack_grid, gameState = Active, score = 0,
      currentPuyo = Some \<lparr>color1 = Some Green, color2 = Some Yellow, puyo_x = 2, puyo_y = 5, rotation = 0\<rparr>,
      nextPuyo = Some (generatePuyoPair Blue Blue), chainCounter = 0, isPaused = False\<rparr>"

definition example_landed_grid :: Grid where
  "example_landed_grid =
     [[None, None, None, None, None, None],
      [None, None, None, None, None, None],
      [None, None, None, None, None, None],
      [None, None, None, None, None, None],
      [None, None, Some Yellow, None, None, None],
      [None, None, Some Green, None, None, None],
      [None, None, Some Blue, None, None, None],
      [None, None, Some Red, None, None, None],
      [None, None, Some Blue, None, None, None],
      [None, None, Some Red, None, None, None],
      [None, None, Some Blue, None, None, None],
      [None, None, Some Red, None, None, None]]"

definition example_blocked_spawn :: Game where
  "example_blocked_spawn =
     \<lparr>grid = example_tall_grid, gameState = Active, score = 0,
      currentPuyo = Some (generatePuyoPair Green Yellow),
      nextPuyo = Some (generatePuyoPair Blue Blue), chainCounter = 0, isPaused = False\<rparr>"

definition example_floor_game :: Game where
  "example_floor_game =
     \<lparr>grid = createEmptyGrid, gameState = Active, score = 0,
      currentPuyo = Some \<lparr>color1 = Some Red, color2 = Some Green, puyo_x = 2, puyo_y = 11, rotation = 0\<rparr>,
      nextPuyo = Some (generatePuyoPair Blue Yellow), chainCounter = 0, isPaused = False\<rparr>"

definition example_landing_events :: "Event list" where
  "example_landing_events =
     StartGame Red Blue Red Blue # replicate 11 (Move Down Red Red) @ [Move Down Red Blue]
     @ replicate 9 (Move Down Red Red) @ [Move Down Green Yellow]
     @ replicate 7 (Move Down Red Red) @ [Move Down Blue Blue]
     @ replicate 5 (Move Down Red Red)"

definition example_chain_grid :: Grid where
  "example_chain_grid =
     [[None, None, None, None, None, None],
      [None, None, None, None, None, None],
      [None, None, None, None, None, None],
      [None, None, None, None, None, None],
      [None, None, None, None, None, None],
      [None, None, None, None, None, None],
      [Some Green, None, None, None, None, None],
      [Some Green, None, None, None, None, None],
      [Some Red, None, None, None, None, None],
      [Some Red, None, None, None, None, None],
      [Some Red, Some Red, None, None, None, None],
      [Some Green, Some Green, Some Green, None, None, None]]"

section \<open>The validator accepts exactly the legal moves\<close>

text \<open>
  C1. For every grid and every candidate piece with orientation 0, 1, 2 or 3,
  \<open>isValidMove\<close> returns true if and only if the anchor cell and the computed
  second cell both lie inside the grid (column in 0..5, row in 0..11) and both cells
  of the grid are empty.
\<close>

theorem isValidMove_iff_legal:
  assumes "rotation p \<in> {0, 1, 2, 3}"
  shows "isValidMove g p \<longleftrightarrow> legal_move_spec g p"
proof -
  from assms consider "rotation p = 0" | "rotation p = 1" | "rotation p = 2" | "rotation p = 3"
    by auto
  then show ?thesis
    by cases
      (auto simp: isValidMove_def legal_move_spec_def orientation_offset_def cellAt_def
        GRID_ROWS_def GRID_COLS_def Let_def)
qed

theorem isValidMove_iff_legal_witness:
  "rotation \<lparr>color1 = Some Red, color2 = Some Blue, puyo_x = 2, puyo_y = 10, rotation = 1\<rparr> \<in> {0, 1, 2, 3}
   \<and> isValidMove example_floor_grid
        \<lparr>color1 = Some Red, color2 = Some Blue, puyo_x = 2, puyo_y = 10, rotation = 1\<rparr>
   \<and> legal_move_spec example_floor_grid
        \<lparr>color1 = Some Red, color2 = Some Blue, puyo_x = 2, puyo_y = 10, rotation = 1\<rparr>
   \<and> \<not> isValidMove example_floor_grid
        \<lparr>color1 = Some Red, color2 = Some Blue, puyo_x = 2, puyo_y = 11, rotation = 3\<rparr>
   \<and> \<not> legal_move_spec example_floor_grid
        \<lparr>color1 = Some Red, color2 = Some Blue, puyo_x = 2, puyo_y = 11, rotation = 3\<rparr>"
proof -
  let ?p = "\<lparr>color1 = Some Red, color2 = Some Blue, puyo_x = 2, puyo_y = 10, rotation = 1\<rparr>"
  let ?q = "\<lparr>color1 = Some Red, color2 = Some Blue, puyo_x = 2, puyo_y = 11, rotation = 3\<rparr>"
  have r1: "rotation ?p \<in> {0, 1, 2, 3}" by simp
  have r2: "rotation ?q \<in> {0, 1, 2, 3}" by simp
  have v1: "isValidMove example_floor_grid ?p"
    by (simp add: isValidMove_def example_floor_grid_def cellAt_def GRID_ROWS_def GRID_COLS_def
        nth_append)
  have v2: "\<not> isValidMove example_floor_grid ?q"
    by (simp add: isValidMove_def example_floor_grid_def cellAt_def GRID_ROWS_def GRID_COLS_def
        nth_append)
  from isValidMove_iff_legal [OF r1, of example_floor_grid]
       isValidMove_iff_legal [OF r2, of example_floor_grid] r1 v1 v2
  show ?thesis by blast
qed

section \<open>Gravity\<close>


lemma nth_update_total: "xs[i := v] ! j = (if i = j \<and> i < length xs then v else xs ! j)"
  by (cases "i < length xs") (auto simp: nth_list_update list_update_beyond)

lemma wf_grid_length: "wf_grid g \<Longrightarrow> length g = 12"
  by (simp add: wf_grid_def GRID_ROWS_def)

lemma wf_grid_row_length: "wf_grid g \<Longrightarrow> i < 12 \<Longrightarrow> length (g ! i) = 6"
  by (simp add: wf_grid_def GRID_ROWS_def GRID_COLS_def list_all_length)

lemma wf_grid_setCell: "wf_grid g \<Longrightarrow> wf_grid (setCell g x y v)"
  by (auto simp: wf_grid_def setCell_def list_all_length nth_update_total)

lemma length_column: "length (column g x) = length g"
  by (simp add: column_def)

lemma cellAt_column: "0 \<le> y \<Longrightarrow> nat y < length g \<Longrightarrow> cellAt g x y = column g x ! nat y"
  by (simp add: cellAt_def column_def)

lemma column_setCell_same:
  assumes "wf_grid g" "0 \<le> x" "x < 6" "0 \<le> y" "y < 12"
  shows "column (setCell g x y v) x = (column g x)[nat y := v]"
proof (rule nth_equalityI)
  show "length (column (setCell g x y v) x) = length ((column g x)[nat y := v])"
    by (simp add: column_def setCell_def)
next
  fix i assume "i < length (column (setCell g x y v) x)"
  then have i: "i < 12" using assms(1) by (simp add: column_def setCell_def wf_grid_length)
  have "length (g ! nat y) = 6" using assms by (simp add: wf_grid_row_length)
  then show "column (setCell g x y v) x ! i = (column g x)[nat y := v] ! i"
    using i assms by (auto simp: column_def setCell_def wf_grid_length nth_list_update)
qed

lemma column_setCell_other:
  assumes "x' \<noteq> x" "0 \<le> x" "0 \<le> x'"
  shows "column (setCell g x y v) x' = column g x'"
proof (rule nth_equalityI)
  show "length (column (setCell g x y v) x') = length (column g x')"
    by (simp add: column_def setCell_def)
next
  fix i assume "i < length (column (setCell g x y v) x')"
  then have i: "i < length g" by (simp add: column_def setCell_def)
  have "nat x' \<noteq> nat x" using assms by simp
  then show "column (setCell g x y v) x' ! i = column g x' ! i"
    using i by (auto simp: column_def setCell_def nth_update_total)
qed

lemma replicate_update_last: "(replicate (Suc j) v)[j := c] = replicate j v @ [c]"
  by (induction j) simp_all

lemma shift_in_column:
  assumes "length ups' = n" "0 < k"
  shows "((ups' @ [c] @ replicate k None @ downs)[n + k := c])[n := None] =
         ups' @ replicate k None @ (c # downs)"
proof -
  obtain j where k: "k = Suc j" using assms(2) by (cases k) auto
  have "(ups' @ [c] @ replicate k None @ downs)[n + k := c]
        = ups' @ [c] @ replicate j None @ [c] @ downs"
    using assms(1) unfolding k
    by (simp add: list_update_append replicate_update_last del: replicate_Suc)
  then have "((ups' @ [c] @ replicate k None @ downs)[n + k := c])[n := None]
        = ups' @ [None] @ replicate j None @ [c] @ downs"
    using assms(1) by (simp add: list_update_append)
  also have "\<dots> = ups' @ replicate k None @ (c # downs)"
    unfolding k by simp
  finally show ?thesis .
qed

lemma gravityColumn_column:
  assumes "wf_grid g" "0 \<le> x" "x < 6"
    and "column g x = ups @ replicate k None @ downs" "length ups = n" "writeY = int (n + k) - 1"
  shows "column (gravityColumn x n writeY g) x =
           replicate (k + length (filter (\<lambda>c. c = None) ups)) None @ filter (\<lambda>c. c \<noteq> None) ups @ downs
         \<and> wf_grid (gravityColumn x n writeY g)
         \<and> (\<forall>x'. 0 \<le> x' \<and> x' \<noteq> x \<longrightarrow> column (gravityColumn x n writeY g) x' = column g x')"
  using assms
proof (induction n arbitrary: g ups k downs writeY)
  case 0
  then show ?case by simp
next
  case (Suc n)
  obtain ups' c where ups: "ups = ups' @ [c]" and lups: "length ups' = n"
    using Suc.prems(5) by (cases ups rule: rev_cases) auto
  have len: "length g = 12" using Suc.prems(1) by (rule wf_grid_length)
  have "length (column g x) = 12" using len by (simp add: length_column)
  then have total: "Suc n + k + length downs = 12"
    using Suc.prems(4,5) by simp
  have cy: "cellAt g x (int n) = c"
  proof -
    have "cellAt g x (int n) = column g x ! n"
      using total len by (simp add: cellAt_column)
    then show ?thesis using Suc.prems(4) ups lups by (simp add: nth_append)
  qed
  show ?case
  proof (cases "c = None")
    case True
    have col: "column g x = ups' @ replicate (Suc k) None @ downs"
      using Suc.prems(4) ups True by simp
    have w: "writeY = int (n + Suc k) - 1" using Suc.prems(6) by simp
    have step: "gravityColumn x (Suc n) writeY g = gravityColumn x n writeY g"
      using cy True by (simp add: Let_def)
    from Suc.IH [OF Suc.prems(1,2,3) col lups w] show ?thesis
      unfolding step ups using True by simp
  next
    case False
    let ?g1 = "setCell g x writeY c"
    let ?g2 = "if writeY \<noteq> int n then setCell ?g1 x (int n) None else ?g1"
    have wy: "writeY = int (n + k)" "0 \<le> writeY" "writeY < 12"
      using Suc.prems(6) total by auto
    have wf1: "wf_grid ?g1" using Suc.prems(1) by (rule wf_grid_setCell)
    have wf2: "wf_grid ?g2" by (metis wf1 wf_grid_setCell)
    have natw: "nat writeY = n + k" unfolding wy(1) by (rule nat_int)
    have col1: "column ?g1 x = (column g x)[n + k := c]"
      using column_setCell_same [OF Suc.prems(1,2,3) wy(2,3), of c] natw by simp
    have col2: "column ?g2 x = ups' @ replicate k None @ (c # downs)"
    proof (cases "k = 0")
      case True
      then have "writeY = int n" using wy by simp
      then show ?thesis using col1 True Suc.prems(4) ups lups
        by (simp add: list_update_append)
    next
      case False
      then have ne: "writeY \<noteq> int n" using wy by simp
      have "0 \<le> int n" "int n < 12" using total by auto
      from column_setCell_same [OF wf1 Suc.prems(2,3) this]
      have "column ?g2 x = ((column g x)[n + k := c])[n := None]"
        using ne col1 by simp
      then show ?thesis
        using Suc.prems(4) ups shift_in_column [OF lups, of k c downs] False by simp
    qed
    have other: "\<forall>x'. 0 \<le> x' \<and> x' \<noteq> x \<longrightarrow> column ?g2 x' = column g x'"
      using Suc.prems(2) by (simp add: column_setCell_other)
    have w: "writeY - 1 = int (n + k) - 1" using wy by simp
    have step: "gravityColumn x (Suc n) writeY g = gravityColumn x n (writeY - 1) ?g2"
      using cy False by (simp add: Let_def)
    from Suc.IH [OF wf2 Suc.prems(2,3) col2 lups w] other show ?thesis
      unfolding step ups using False by simp
  qed
qed


lemma filter_None_replicate:
  "filter (\<lambda>c. c = None) xs = replicate (length (filter (\<lambda>c. c = None) xs)) None"
  by (induction xs) auto

lemma gravityColumn_whole:
  assumes "wf_grid g" "0 \<le> x" "x < 6"
  shows "column (gravityColumn x (nat GRID_ROWS) (GRID_ROWS - 1) g) x = settled (column g x)"
    and "wf_grid (gravityColumn x (nat GRID_ROWS) (GRID_ROWS - 1) g)"
    and "\<And>x'. 0 \<le> x' \<Longrightarrow> x' \<noteq> x \<Longrightarrow>
           column (gravityColumn x (nat GRID_ROWS) (GRID_ROWS - 1) g) x' = column g x'"
proof -
  have col: "column g x = column g x @ replicate 0 None @ []" by simp
  have len: "length (column g x) = 12" using assms(1) by (simp add: length_column wf_grid_length)
  have w: "GRID_ROWS - 1 = int (12 + 0) - 1" by (simp add: GRID_ROWS_def)
  have n: "nat GRID_ROWS = 12" by (simp add: GRID_ROWS_def)
  note main = gravityColumn_column [OF assms col len w]
  show "column (gravityColumn x (nat GRID_ROWS) (GRID_ROWS - 1) g) x = settled (column g x)"
    using main filter_None_replicate [of "column g x"] unfolding n settled_def by simp
  show "wf_grid (gravityColumn x (nat GRID_ROWS) (GRID_ROWS - 1) g)"
    using main unfolding n by simp
  show "\<And>x'. 0 \<le> x' \<Longrightarrow> x' \<noteq> x \<Longrightarrow>
           column (gravityColumn x (nat GRID_ROWS) (GRID_ROWS - 1) g) x' = column g x'"
    using main unfolding n by simp
qed

lemma fold_gravityColumn:
  assumes "wf_grid g" "set xs \<subseteq> {0..<6}" "distinct xs"
  shows "wf_grid (fold (\<lambda>x g. gravityColumn x (nat GRID_ROWS) (GRID_ROWS - 1) g) xs g) \<and>
         (\<forall>x. 0 \<le> x \<longrightarrow>
            column (fold (\<lambda>x g. gravityColumn x (nat GRID_ROWS) (GRID_ROWS - 1) g) xs g) x =
              (if x \<in> set xs then settled (column g x) else column g x))"
  using assms
proof (induction xs arbitrary: g)
  case Nil
  then show ?case by simp
next
  case (Cons a xs)
  let ?g1 = "gravityColumn a (nat GRID_ROWS) (GRID_ROWS - 1) g"
  have a: "0 \<le> a" "a < 6" using Cons.prems(2) by auto
  note one = gravityColumn_whole [OF Cons.prems(1) a]
  have ih: "wf_grid (fold (\<lambda>x g. gravityColumn x (nat GRID_ROWS) (GRID_ROWS - 1) g) xs ?g1) \<and>
         (\<forall>x. 0 \<le> x \<longrightarrow>
            column (fold (\<lambda>x g. gravityColumn x (nat GRID_ROWS) (GRID_ROWS - 1) g) xs ?g1) x =
              (if x \<in> set xs then settled (column ?g1 x) else column ?g1 x))"
    using Cons.IH [OF one(2)] Cons.prems(2,3) by simp
  have fresh: "a \<notin> set xs" using Cons.prems(3) by simp
  have cols: "column (fold (\<lambda>x g. gravityColumn x (nat GRID_ROWS) (GRID_ROWS - 1) g) (a # xs) g) x =
              (if x \<in> set (a # xs) then settled (column g x) else column g x)"
    if x: "0 \<le> x" for x
  proof (cases "x = a")
    case True
    then show ?thesis using ih fresh one(1) x by simp
  next
    case False
    then have "column ?g1 x = column g x" using one(3) x by simp
    then show ?thesis using ih False x by simp
  qed
  show ?case using ih cols by simp
qed

lemma applyGravity_column:
  assumes "wf_grid g" "0 \<le> x" "x < 6"
  shows "column (applyGravity g) x = settled (column g x)"
proof -
  have "set [0..GRID_COLS - 1] \<subseteq> {0..<6}" by (auto simp: GRID_COLS_def)
  from fold_gravityColumn [OF assms(1) this] assms(2,3) show ?thesis
    by (simp add: applyGravity_def GRID_COLS_def)
qed

lemma wf_grid_applyGravity: "wf_grid g \<Longrightarrow> wf_grid (applyGravity g)"
proof -
  assume wf: "wf_grid g"
  have "set [0..GRID_COLS - 1] \<subseteq> {0..<6}" by (auto simp: GRID_COLS_def)
  from fold_gravityColumn [OF wf this] show ?thesis
    by (simp add: applyGravity_def)
qed

lemma grid_eq_by_columns:
  assumes "wf_grid g" "wf_grid h" "\<And>x. 0 \<le> x \<Longrightarrow> x < 6 \<Longrightarrow> column g x = column h x"
  shows "g = h"
proof (rule nth_equalityI)
  show "length g = length h" using assms(1,2) by (simp add: wf_grid_length)
next
  fix i assume "i < length g"
  then have i: "i < 12" using assms(1) by (simp add: wf_grid_length)
  show "g ! i = h ! i"
  proof (rule nth_equalityI)
    show "length (g ! i) = length (h ! i)" using assms(1,2) i by (simp add: wf_grid_row_length)
  next
    fix j assume "j < length (g ! i)"
    then have j: "j < 6" using assms(1) i by (simp add: wf_grid_row_length)
    have "column g (int j) ! i = column h (int j) ! i" using assms(3) [of "int j"] j by simp
    then show "g ! i ! j = h ! i ! j"
      using i assms(1,2) by (simp add: column_def wf_grid_length)
  qed
qed

lemma settled_idem: "settled (settled col) = settled col"
  by (auto simp: settled_def filter_empty_conv)

lemma applyGravity_idem: "wf_grid g \<Longrightarrow> applyGravity (applyGravity g) = applyGravity g"
proof (rule grid_eq_by_columns)
  assume wf: "wf_grid g"
  show "wf_grid (applyGravity (applyGravity g))" using wf by (simp add: wf_grid_applyGravity)
  show "wf_grid (applyGravity g)" using wf by (simp add: wf_grid_applyGravity)
  fix x :: int assume x: "0 \<le> x" "x < 6"
  show "column (applyGravity (applyGravity g)) x = column (applyGravity g) x"
    using wf x by (simp add: applyGravity_column wf_grid_applyGravity settled_idem)
qed

text \<open>
  C5. For every grid, \<open>applyGravity\<close> compacts each column on its own: the
  resulting column is the stable partition of the original column with the empty
  cells on top and the non-empty cells, in their original vertical order, at the
  bottom. The dimensions of the grid stay the same.
\<close>

theorem applyGravity_stable_partition:
  assumes "wf_grid g" "0 \<le> x" "x < GRID_COLS"
  shows "column (applyGravity g) x =
           filter (\<lambda>c. c = None) (column g x) @ filter (\<lambda>c. c \<noteq> None) (column g x)
         \<and> wf_grid (applyGravity g)"
proof -
  have "x < 6" using assms(3) by (simp add: GRID_COLS_def)
  with assms(1,2) have "column (applyGravity g) x = settled (column g x)"
    by (rule applyGravity_column)
  then show ?thesis using assms(1) by (simp add: settled_def wf_grid_applyGravity)
qed

lemma wf_example_float_grid: "wf_grid example_float_grid"
  by (simp add: wf_grid_def example_float_grid_def GRID_ROWS_def GRID_COLS_def)

theorem applyGravity_stable_partition_witness:
  "wf_grid example_float_grid \<and> (0::int) \<le> 0 \<and> 0 < GRID_COLS
   \<and> column example_float_grid 0 =
       [None, None, None, None, None, None, None, None, None, Some Red, None, Some Green]
   \<and> column (applyGravity example_float_grid) 0 =
       [None, None, None, None, None, None, None, None, None, None, Some Red, Some Green]
   \<and> wf_grid (applyGravity example_float_grid)"
proof -
  have c: "(0::int) < GRID_COLS" by (simp add: GRID_COLS_def)
  have col: "column example_float_grid 0 =
       [None, None, None, None, None, None, None, None, None, Some Red, None, Some Green]"
    by (simp add: column_def example_float_grid_def)
  from applyGravity_stable_partition [OF wf_example_float_grid order_refl c]
  show ?thesis using wf_example_float_grid c col by simp
qed

text \<open>
  C8. For every grid, applying gravity twice gives the same grid as applying it once.
\<close>

theorem applyGravity_idempotent:
  assumes "wf_grid g"
  shows "applyGravity (applyGravity g) = applyGravity g"
  using assms by (rule applyGravity_idem)

theorem applyGravity_idempotent_witness:
  "wf_grid example_float_grid
   \<and> applyGravity (applyGravity example_float_grid) = applyGravity example_float_grid
   \<and> applyGravity example_float_grid \<noteq> example_float_grid"
proof -
  have "column (applyGravity example_float_grid) 0 \<noteq> column example_float_grid 0"
    by code_simp
  then have "applyGravity example_float_grid \<noteq> example_float_grid" by auto
  with applyGravity_idempotent [OF wf_example_float_grid] wf_example_float_grid
  show ?thesis by simp
qed

section \<open>Connected groups and the search\<close>

lemma adjacent_cases:
  "adjacent (x, y) q \<longleftrightarrow> q = (x + 1, y) \<or> q = (x - 1, y) \<or> q = (x, y + 1) \<or> q = (x, y - 1)"
  by (cases q) (auto simp: adjacent_def)

lemma fcp_inv_base:
  assumes "\<not> colored g c (x, y) \<or> (x, y) \<in> set v"
  shows "fcp_inv g c (x, y) v v"
  using assms by (auto simp: fcp_inv_def)

lemma fcp_inv_step:
  assumes s: "colored g c (x, y)" and nv: "(x, y) \<notin> set v"
    and i1: "fcp_inv g c (x + 1, y) (v @ [(x, y)]) v1"
    and i2: "fcp_inv g c (x - 1, y) v1 v2"
    and i3: "fcp_inv g c (x, y + 1) v2 v3"
    and i4: "fcp_inv g c (x, y - 1) v3 v4"
  shows "fcp_inv g c (x, y) v v4"
proof -
  let ?S = "same_color_steps g c"
  have sub: "set (v @ [(x, y)]) \<subseteq> set v1" "set v1 \<subseteq> set v2" "set v2 \<subseteq> set v3" "set v3 \<subseteq> set v4"
    using i1 i2 i3 i4 by (simp_all add: fcp_inv_def)
  have a: "set v \<subseteq> set v4" using sub by auto
  have b: "distinct v \<longrightarrow> distinct v4"
    using i1 i2 i3 i4 nv by (simp add: fcp_inv_def)
  have hop: "(s', p) \<in> ?S\<^sup>* \<Longrightarrow> colored g c s' \<Longrightarrow> adjacent (x, y) s' \<Longrightarrow> ((x, y), p) \<in> ?S\<^sup>*" for s' p
  proof -
    assume r: "(s', p) \<in> ?S\<^sup>*" and c: "colored g c s'" and ad: "adjacent (x, y) s'"
    have "((x, y), s') \<in> ?S" using s c ad by (simp add: same_color_steps_def)
    then show ?thesis using r by (rule converse_rtrancl_into_rtrancl)
  qed
  have adj: "adjacent (x, y) (x + 1, y)" "adjacent (x, y) (x - 1, y)"
    "adjacent (x, y) (x, y + 1)" "adjacent (x, y) (x, y - 1)"
    by (simp_all add: adjacent_def)
  have c: "colored g c (x, y) \<and> colored g c p \<and> ((x, y), p) \<in> ?S\<^sup>*"
    if p: "p \<in> set v4 - set v" for p
  proof -
    consider "p = (x, y)" | "p \<in> set v1 - set (v @ [(x, y)])" | "p \<in> set v2 - set v1"
      | "p \<in> set v3 - set v2" | "p \<in> set v4 - set v3"
      using p by auto
    then show ?thesis
    proof cases
      case 1
      then show ?thesis using s by simp
    next
      case 2
      then have "colored g c (x + 1, y) \<and> colored g c p \<and> ((x + 1, y), p) \<in> ?S\<^sup>*"
        using i1 unfolding fcp_inv_def by blast
      then show ?thesis using s hop adj(1) by blast
    next
      case 3
      then have "colored g c (x - 1, y) \<and> colored g c p \<and> ((x - 1, y), p) \<in> ?S\<^sup>*"
        using i2 unfolding fcp_inv_def by blast
      then show ?thesis using s hop adj(2) by blast
    next
      case 4
      then have "colored g c (x, y + 1) \<and> colored g c p \<and> ((x, y + 1), p) \<in> ?S\<^sup>*"
        using i3 unfolding fcp_inv_def by blast
      then show ?thesis using s hop adj(3) by blast
    next
      case 5
      then have "colored g c (x, y - 1) \<and> colored g c p \<and> ((x, y - 1), p) \<in> ?S\<^sup>*"
        using i4 unfolding fcp_inv_def by blast
      then show ?thesis using s hop adj(4) by blast
    qed
  qed
  have d: "(x, y) \<in> set v4" using sub by auto
  have e: "q \<in> set v4" if p: "p \<in> set v4 - set v" and q: "colored g c q" "adjacent p q" for p q
  proof -
    consider "p = (x, y)" | "p \<in> set v1 - set (v @ [(x, y)])" | "p \<in> set v2 - set v1"
      | "p \<in> set v3 - set v2" | "p \<in> set v4 - set v3"
      using p by auto
    then show ?thesis
    proof cases
      case 1
      then consider "q = (x + 1, y)" | "q = (x - 1, y)" | "q = (x, y + 1)" | "q = (x, y - 1)"
        using q(2) adjacent_cases by blast
      then show ?thesis
      proof cases
        case 1
        then have "q \<in> set v1" using i1 q(1) by (simp add: fcp_inv_def)
        then show ?thesis using sub by auto
      next
        case 2
        then have "q \<in> set v2" using i2 q(1) by (simp add: fcp_inv_def)
        then show ?thesis using sub by auto
      next
        case 3
        then have "q \<in> set v3" using i3 q(1) by (simp add: fcp_inv_def)
        then show ?thesis using sub by auto
      next
        case 4
        then show ?thesis using i4 q(1) by (simp add: fcp_inv_def)
      qed
    next
      case 2
      then have "q \<in> set v1" using i1 q unfolding fcp_inv_def by blast
      then show ?thesis using sub by auto
    next
      case 3
      then have "q \<in> set v2" using i2 q unfolding fcp_inv_def by blast
      then show ?thesis using sub by auto
    next
      case 4
      then have "q \<in> set v3" using i3 q unfolding fcp_inv_def by blast
      then show ?thesis using sub by auto
    next
      case 5
      then show ?thesis using i4 q unfolding fcp_inv_def by blast
    qed
  qed
  show ?thesis unfolding fcp_inv_def using a b c d e by blast
qed

lemma findConnectedPuyos_inv:
  "fcp_inv g c (x, y) v (findConnectedPuyos g x y c v)"
proof (induction g x y c v rule: findConnectedPuyos.induct)
  case (1 g x y color visited)
  show ?case
  proof (cases "x < 0 \<or> x \<ge> GRID_COLS \<or> y < 0 \<or> y \<ge> GRID_ROWS \<or>
         cellAt g x y \<noteq> color \<or> (x, y) \<in> set visited")
    case True
    then have "\<not> colored g color (x, y) \<or> (x, y) \<in> set visited"
      by (auto simp: colored_def all_cells_def)
    then have "fcp_inv g color (x, y) visited visited" by (rule fcp_inv_base)
    moreover have "findConnectedPuyos g x y color visited = visited"
      using True by (subst findConnectedPuyos.simps) simp
    ultimately show ?thesis by simp
  next
    case False
    let ?v0 = "visited @ [(x, y)]"
    let ?v1 = "findConnectedPuyos g (x + 1) y color ?v0"
    let ?v2 = "findConnectedPuyos g (x - 1) y color ?v1"
    let ?v3 = "findConnectedPuyos g x (y + 1) color ?v2"
    let ?v4 = "findConnectedPuyos g x (y - 1) color ?v3"
    have s: "colored g color (x, y)" and nv: "(x, y) \<notin> set visited"
      using False by (auto simp: colored_def all_cells_def)
    have i1: "fcp_inv g color (x + 1, y) ?v0 ?v1" using "1.IH"(1) [OF False] by simp
    have i2: "fcp_inv g color (x - 1, y) ?v1 ?v2" using "1.IH"(2) [OF False] by simp
    have i3: "fcp_inv g color (x, y + 1) ?v2 ?v3" using "1.IH"(3) [OF False] by simp
    have i4: "fcp_inv g color (x, y - 1) ?v3 ?v4" using "1.IH"(4) [OF False] by simp
    have "findConnectedPuyos g x y color visited = ?v4"
      using False by (subst findConnectedPuyos.simps) (simp add: Let_def)
    then show ?thesis using fcp_inv_step [OF s nv i1 i2 i3 i4] by simp
  qed
qed

lemma group_of_member_colored:
  assumes "(p, q) \<in> (same_color_steps g c)\<^sup>*"
  shows "q = p \<or> colored g c q"
  using assms by (induction rule: rtrancl_induct) (auto simp: same_color_steps_def)

lemma sym_same_color_steps: "sym (same_color_steps g c)"
  by (auto simp: sym_def same_color_steps_def adjacent_def)

lemma same_color_steps_rev:
  "(p, q) \<in> (same_color_steps g c)\<^sup>* \<Longrightarrow> (q, p) \<in> (same_color_steps g c)\<^sup>*"
  by (rule symD [OF sym_rtrancl [OF sym_same_color_steps]])

lemma findConnectedPuyos_group:
  assumes "(x, y) \<in> all_cells"
  shows "set (findConnectedPuyos g x y (cellAt g x y) []) = group_of g x y"
    and "distinct (findConnectedPuyos g x y (cellAt g x y) [])"
proof -
  let ?c = "cellAt g x y"
  let ?r = "findConnectedPuyos g x y ?c []"
  have inv: "fcp_inv g ?c (x, y) [] ?r" by (rule findConnectedPuyos_inv)
  have s: "colored g ?c (x, y)" using assms by (simp add: colored_def)
  show "distinct ?r" using inv by (simp add: fcp_inv_def)
  have sound: "set ?r \<subseteq> group_of g x y"
    using inv by (auto simp: fcp_inv_def group_of_def)
  have start: "(x, y) \<in> set ?r" using inv s by (simp add: fcp_inv_def)
  have closed: "\<And>p q. p \<in> set ?r \<Longrightarrow> (p, q) \<in> same_color_steps g ?c \<Longrightarrow> q \<in> set ?r"
    using inv by (auto simp: fcp_inv_def same_color_steps_def)
  have complete: "q \<in> set ?r" if "((x, y), q) \<in> (same_color_steps g ?c)\<^sup>*" for q
    using that by (induction rule: rtrancl_induct) (auto intro: start closed)
  show "set ?r = group_of g x y"
    using sound complete by (auto simp: group_of_def)
qed

lemma group_of_same:
  assumes "q \<in> group_of g x y"
  shows "cellAt g (fst q) (snd q) = cellAt g x y"
    and "group_of g (fst q) (snd q) = group_of g x y"
proof -
  let ?c = "cellAt g x y"
  have path: "((x, y), q) \<in> (same_color_steps g ?c)\<^sup>*" using assms by (simp add: group_of_def)
  from group_of_member_colored [OF path]
  show col: "cellAt g (fst q) (snd q) = ?c" by (auto simp: colored_def)
  have rpath: "(q, (x, y)) \<in> (same_color_steps g ?c)\<^sup>*" using path by (rule same_color_steps_rev)
  show "group_of g (fst q) (snd q) = group_of g x y"
    unfolding group_of_def col using path rpath
    by (auto intro: rtrancl_trans)
qed

lemma group_of_self: "(x, y) \<in> group_of g x y"
  by (simp add: group_of_def)

lemma group_of_subset: "(x, y) \<in> all_cells \<Longrightarrow> group_of g x y \<subseteq> all_cells"
proof
  fix q assume xy: "(x, y) \<in> all_cells" and "q \<in> group_of g x y"
  then have "((x, y), q) \<in> (same_color_steps g (cellAt g x y))\<^sup>*" by (simp add: group_of_def)
  from group_of_member_colored [OF this] xy show "q \<in> all_cells" by (auto simp: colored_def)
qed

lemma set_fold_set_add: "set (fold set_add xs m) = set m \<union> set xs"
  by (induction xs arbitrary: m) (auto simp: set_add_def)

lemma distinct_fold_set_add: "distinct m \<Longrightarrow> distinct (fold set_add xs m)"
  by (induction xs arbitrary: m) (auto simp: set_add_def)

lemma scanCell_eq:
  assumes "(x, y) \<in> all_cells"
  shows "scanCell g y x (h, m) =
           (if qualifies g (x, y) then (True, fold set_add (findConnectedPuyos g x y (cellAt g x y) []) m)
            else (h, m))"
proof -
  have "length (findConnectedPuyos g x y (cellAt g x y) []) = card (group_of g x y)"
    using findConnectedPuyos_group [OF assms, of g] by (metis distinct_card)
  then show ?thesis by (simp add: scanCell_def qualifies_def Let_def)
qed

lemma fold_scanCell:
  assumes "set cs \<subseteq> all_cells" "distinct m"
  shows "fst (fold (\<lambda>(x, y) acc. scanCell g y x acc) cs (h, m)) = (h \<or> (\<exists>p \<in> set cs. qualifies g p))
       \<and> set (snd (fold (\<lambda>(x, y) acc. scanCell g y x acc) cs (h, m))) =
           set m \<union> (\<Union>p \<in> {p \<in> set cs. qualifies g p}. group_of g (fst p) (snd p))
       \<and> distinct (snd (fold (\<lambda>(x, y) acc. scanCell g y x acc) cs (h, m)))"
  using assms
proof (induction cs arbitrary: h m)
  case Nil
  then show ?case by simp
next
  case (Cons a cs)
  obtain x y where a: "a = (x, y)" by (cases a)
  have xy: "(x, y) \<in> all_cells" using Cons.prems(1) a by simp
  have rest: "set cs \<subseteq> all_cells" using Cons.prems(1) by simp
  show ?case
  proof (cases "qualifies g (x, y)")
    case True
    let ?m1 = "fold set_add (findConnectedPuyos g x y (cellAt g x y) []) m"
    have d1: "distinct ?m1" using Cons.prems(2) by (rule distinct_fold_set_add)
    have s1: "set ?m1 = set m \<union> group_of g x y"
      using findConnectedPuyos_group(1) [OF xy, of g] by (simp add: set_fold_set_add)
    have step: "fold (\<lambda>(x, y) acc. scanCell g y x acc) (a # cs) (h, m) =
                fold (\<lambda>(x, y) acc. scanCell g y x acc) cs (True, ?m1)"
      using True a by (simp add: scanCell_eq [OF xy])
    from Cons.IH [OF rest d1, of True] show ?thesis
      unfolding step using True a s1 by auto
  next
    case False
    have step: "fold (\<lambda>(x, y) acc. scanCell g y x acc) (a # cs) (h, m) =
                fold (\<lambda>(x, y) acc. scanCell g y x acc) cs (h, m)"
      using False a by (simp add: scanCell_eq [OF xy])
    from Cons.IH [OF rest Cons.prems(2), of h] show ?thesis
      unfolding step using False a by auto
  qed
qed

lemma set_scan_order: "set scan_order = all_cells"
  by (auto simp: scan_order_def all_cells_def)

lemma fold_concat_map:
  "fold f (concat (map (\<lambda>y. map (\<lambda>x. (x, y)) xs) ys)) acc =
   fold (\<lambda>y acc. fold (\<lambda>x acc. f (x, y) acc) xs acc) ys acc"
  by (induction ys arbitrary: acc) (simp_all add: fold_map comp_def)

lemma findMatches_scan_order:
  "findMatches g = fold (\<lambda>(x, y) acc. scanCell g y x acc) scan_order (False, [])"
  by (simp add: findMatches_def scan_order_def fold_concat_map)

lemma findMatches_char:
  shows "fst (findMatches g) = (\<exists>p \<in> all_cells. qualifies g p)"
    and "set (snd (findMatches g)) = {p \<in> all_cells. qualifies g p}"
    and "distinct (snd (findMatches g))"
proof -
  have sub: "set scan_order \<subseteq> all_cells" by (simp add: set_scan_order)
  note f = fold_scanCell [OF sub, of "[]" g False, simplified, folded findMatches_scan_order]
  show "fst (findMatches g) = (\<exists>p \<in> all_cells. qualifies g p)"
    using f by (simp add: set_scan_order)
  show "distinct (snd (findMatches g))" using f by simp
  have "(\<Union>p \<in> {p \<in> all_cells. qualifies g p}. group_of g (fst p) (snd p)) = {p \<in> all_cells. qualifies g p}"
  proof (intro equalityI subsetI)
    fix q assume "q \<in> (\<Union>p \<in> {p \<in> all_cells. qualifies g p}. group_of g (fst p) (snd p))"
    then obtain p where p: "p \<in> all_cells" "qualifies g p" "q \<in> group_of g (fst p) (snd p)" by auto
    have "q \<in> all_cells" using group_of_subset [of "fst p" "snd p" g] p by auto
    moreover have "qualifies g q"
      using group_of_same [OF p(3)] p(2) by (simp add: qualifies_def)
    ultimately show "q \<in> {p \<in> all_cells. qualifies g p}" by simp
  next
    fix q assume "q \<in> {p \<in> all_cells. qualifies g p}"
    then have "q \<in> {p \<in> all_cells. qualifies g p}" "q \<in> group_of g (fst q) (snd q)"
      using group_of_self [of "fst q" "snd q" g] by auto
    then show "q \<in> (\<Union>p \<in> {p \<in> all_cells. qualifies g p}. group_of g (fst p) (snd p))"
      by (rule UN_I)
  qed
  then show "set (snd (findMatches g)) = {p \<in> all_cells. qualifies g p}"
    using f by (simp add: set_scan_order)
qed

section \<open>Removal, occupancy and the chain loop\<close>

lemma occupied_count_sum:
  "occupied_count g = (\<Sum>x = 0..<GRID_COLS. length (filter (\<lambda>c. c \<noteq> None) (column g x)))"
proof -
  have "{0..<GRID_COLS} = set [0..GRID_COLS - 1]" by auto
  then show ?thesis
    unfolding occupied_count_def by (simp add: sum_list_distinct_conv_sum_set)
qed

lemma all_cells_iff: "(x, y) \<in> all_cells \<longleftrightarrow> 0 \<le> x \<and> x < 6 \<and> 0 \<le> y \<and> y < 12"
  by (auto simp: all_cells_def GRID_ROWS_def GRID_COLS_def)

lemma cellAt_setCell:
  assumes "wf_grid g" "(x, y) \<in> all_cells" "(x', y') \<in> all_cells"
  shows "cellAt (setCell g x y v) x' y' = (if x' = x \<and> y' = y then v else cellAt g x' y')"
proof -
  have b: "0 \<le> x" "x < 6" "0 \<le> y" "y < 12" "0 \<le> x'" "x' < 6" "0 \<le> y'" "y' < 12"
    using assms(2,3) by (simp_all add: all_cells_iff)
  have l: "length g = 12" "length (g ! nat y) = 6"
    using assms(1) b by (simp_all add: wf_grid_length wf_grid_row_length)
  have ny: "nat y < length g" and nx: "nat x < length (g ! nat y)" using b l by simp_all
  show ?thesis
  proof (cases "y' = y")
    case True
    have "cellAt (setCell g x y v) x' y' = (g ! nat y)[nat x := v] ! nat x'"
      using True ny by (simp add: cellAt_def setCell_def)
    also have "\<dots> = (if x' = x then v else g ! nat y ! nat x')"
    proof (cases "x' = x")
      case True
      then show ?thesis using nx by simp
    next
      case False
      then have "nat x \<noteq> nat x'" using b by simp
      then show ?thesis using False by simp
    qed
    finally show ?thesis using True by (simp add: cellAt_def)
  next
    case False
    then have "nat y \<noteq> nat y'" using b by simp
    then show ?thesis using False by (simp add: cellAt_def setCell_def)
  qed
qed

lemma removeMatched_cells:
  assumes "wf_grid g" "set ms \<subseteq> all_cells"
  shows "wf_grid (removeMatched g ms) \<and>
         (\<forall>x y. (x, y) \<in> all_cells \<longrightarrow>
            cellAt (removeMatched g ms) x y = (if (x, y) \<in> set ms then None else cellAt g x y))"
  using assms
proof (induction ms arbitrary: g)
  case Nil
  then show ?case by (simp add: removeMatched_def)
next
  case (Cons a ms)
  obtain ax ay where a: "a = (ax, ay)" by (cases a)
  have ain: "(ax, ay) \<in> all_cells" using Cons.prems(2) a by simp
  have wf1: "wf_grid (setCell g ax ay None)" using Cons.prems(1) by (rule wf_grid_setCell)
  have step: "removeMatched g (a # ms) = removeMatched (setCell g ax ay None) ms"
    by (simp add: removeMatched_def a)
  have rest: "set ms \<subseteq> all_cells" using Cons.prems(2) by simp
  from Cons.IH [OF wf1 rest] show ?case
    unfolding step using a ain cellAt_setCell [OF Cons.prems(1) ain] by auto
qed

lemma filter_update_None:
  "i < length xs \<Longrightarrow> xs ! i \<noteq> None \<Longrightarrow>
   Suc (length (filter (\<lambda>c. c \<noteq> None) (xs[i := None]))) = length (filter (\<lambda>c. c \<noteq> None) xs)"
proof (induction xs arbitrary: i)
  case Nil
  then show ?case by simp
next
  case (Cons a xs)
  then show ?case by (cases i) auto
qed

lemma occupied_count_setCell_None:
  assumes "wf_grid g" "(x, y) \<in> all_cells" "cellAt g x y \<noteq> None"
  shows "Suc (occupied_count (setCell g x y None)) = occupied_count g"
proof -
  let ?f = "\<lambda>g x. length (filter (\<lambda>c. c \<noteq> None) (column g x))"
  have b: "0 \<le> x" "x < 6" "0 \<le> y" "y < 12" using assms(2) by (simp_all add: all_cells_iff)
  have xin: "x \<in> {0..<GRID_COLS}" using b by (simp add: GRID_COLS_def)
  have len: "nat y < length (column g x)" using b assms(1) by (simp add: length_column wf_grid_length)
  have occ: "column g x ! nat y \<noteq> None"
    using assms(3) b assms(1) by (simp add: cellAt_column wf_grid_length)
  have same: "Suc (?f (setCell g x y None) x) = ?f g x"
    using column_setCell_same [OF assms(1) b] filter_update_None [OF len occ] by simp
  have other: "?f (setCell g x y None) x' = ?f g x'" if "x' \<in> {0..<GRID_COLS} - {x}" for x'
    using that b column_setCell_other [of x' x g y None] by simp
  have "occupied_count g = ?f g x + (\<Sum>x' \<in> {0..<GRID_COLS} - {x}. ?f g x')"
    unfolding occupied_count_sum using xin by (simp add: sum.remove)
  moreover have "occupied_count (setCell g x y None) =
      ?f (setCell g x y None) x + (\<Sum>x' \<in> {0..<GRID_COLS} - {x}. ?f (setCell g x y None) x')"
    unfolding occupied_count_sum using xin by (simp add: sum.remove)
  moreover have "(\<Sum>x' \<in> {0..<GRID_COLS} - {x}. ?f (setCell g x y None) x') =
      (\<Sum>x' \<in> {0..<GRID_COLS} - {x}. ?f g x')"
    using other by (intro sum.cong) auto
  ultimately show ?thesis using same by simp
qed

lemma occupied_count_removeMatched:
  assumes "wf_grid g" "set ms \<subseteq> all_cells" "distinct ms"
    "\<And>x y. (x, y) \<in> set ms \<Longrightarrow> cellAt g x y \<noteq> None"
  shows "occupied_count (removeMatched g ms) + length ms = occupied_count g"
  using assms
proof (induction ms arbitrary: g)
  case Nil
  then show ?case by (simp add: removeMatched_def)
next
  case (Cons a ms)
  obtain ax ay where a: "a = (ax, ay)" by (cases a)
  have ain: "(ax, ay) \<in> all_cells" using Cons.prems(2) a by simp
  have aocc: "cellAt g ax ay \<noteq> None" using Cons.prems(4) a by simp
  have wf1: "wf_grid (setCell g ax ay None)" using Cons.prems(1) by (rule wf_grid_setCell)
  have step: "removeMatched g (a # ms) = removeMatched (setCell g ax ay None) ms"
    by (simp add: removeMatched_def a)
  have rest: "set ms \<subseteq> all_cells" "distinct ms" using Cons.prems(2,3) by simp_all
  have still: "cellAt (setCell g ax ay None) x y \<noteq> None" if "(x, y) \<in> set ms" for x y
  proof -
    have "(x, y) \<in> all_cells" "(x, y) \<noteq> (ax, ay)" using that Cons.prems(2,3) a by auto
    then show ?thesis
      using cellAt_setCell [OF Cons.prems(1) ain, of x y None] Cons.prems(4) [of x y] that by auto
  qed
  have "occupied_count (removeMatched (setCell g ax ay None) ms) + length ms =
        occupied_count (setCell g ax ay None)"
    using Cons.IH [OF wf1 rest] still by blast
  then show ?case
    unfolding step using occupied_count_setCell_None [OF Cons.prems(1) ain aocc] by simp
qed

lemma filter_settled: "filter (\<lambda>c. c \<noteq> None) (settled col) = filter (\<lambda>c. c \<noteq> None) col"
  by (auto simp: settled_def filter_empty_conv)

lemma occupied_count_applyGravity:
  assumes "wf_grid g"
  shows "occupied_count (applyGravity g) = occupied_count g"
  unfolding occupied_count_sum
proof (rule sum.cong)
  fix x assume "x \<in> {0..<GRID_COLS}"
  then have "0 \<le> x" "x < 6" by (simp_all add: GRID_COLS_def)
  then have "column (applyGravity g) x = settled (column g x)"
    using assms by (simp add: applyGravity_column)
  then show "length (filter (\<lambda>c. c \<noteq> None) (column (applyGravity g) x)) =
             length (filter (\<lambda>c. c \<noteq> None) (column g x))"
    by (simp only: filter_settled)
qed (rule refl)

lemma matched_occupied:
  assumes "(x, y) \<in> set (snd (findMatches g))"
  shows "(x, y) \<in> all_cells" "cellAt g x y \<noteq> None" "4 \<le> card (group_of g x y)"
  using assms findMatches_char(2) [of g] by (auto simp: qualifies_def)

lemma finite_group_of: "(x, y) \<in> all_cells \<Longrightarrow> finite (group_of g x y)"
  using group_of_subset finite_all_cells by (rule finite_subset)

lemma matches_at_least_four:
  assumes "fst (findMatches g)"
  shows "4 \<le> length (snd (findMatches g))"
proof -
  obtain p where p: "p \<in> all_cells" "qualifies g p"
    using assms findMatches_char(1) [of g] by auto
  have sub: "group_of g (fst p) (snd p) \<subseteq> set (snd (findMatches g))"
  proof
    fix q assume q: "q \<in> group_of g (fst p) (snd p)"
    have "q \<in> all_cells" using group_of_subset [of "fst p" "snd p" g] p(1) q by auto
    moreover have "qualifies g q" using group_of_same [OF q] p(2) by (simp add: qualifies_def)
    ultimately show "q \<in> set (snd (findMatches g))" using findMatches_char(2) [of g] by simp
  qed
  have "4 \<le> card (group_of g (fst p) (snd p))" using p(2) by (simp add: qualifies_def)
  also have "\<dots> \<le> card (set (snd (findMatches g)))" using sub by (simp add: card_mono)
  also have "\<dots> = length (snd (findMatches g))"
    using findMatches_char(3) [of g] by (simp add: distinct_card)
  finally show ?thesis .
qed

lemma no_matches_empty:
  assumes "\<not> fst (findMatches g)"
  shows "snd (findMatches g) = []"
proof -
  have "set (snd (findMatches g)) = {}"
    using assms findMatches_char(1,2) [of g] by auto
  then show ?thesis by simp
qed

lemma resolveLoop_unfold:
  "resolveLoop g n s =
     (if fst (findMatches g)
      then resolveLoop (resolvePass g) (n + 1) (s + passPoints (length (snd (findMatches g))) (n + 1))
      else Some (g, n, s))"
  by (subst resolveLoop.simps) (simp add: resolvePass_def clearPass_def split: prod.split)

lemma wf_grid_clearPass: "wf_grid g \<Longrightarrow> wf_grid (clearPass g)"
proof -
  assume wf: "wf_grid g"
  have "set (snd (findMatches g)) \<subseteq> all_cells" using findMatches_char(2) [of g] by auto
  from removeMatched_cells [OF wf this] show ?thesis by (simp add: clearPass_def)
qed

lemma wf_grid_resolvePass: "wf_grid g \<Longrightarrow> wf_grid (resolvePass g)"
  by (simp add: resolvePass_def wf_grid_applyGravity wf_grid_clearPass)

lemma occupied_count_clearPass:
  assumes "wf_grid g"
  shows "occupied_count (clearPass g) + length (snd (findMatches g)) = occupied_count g"
  unfolding clearPass_def
proof (rule occupied_count_removeMatched [OF assms])
  show "set (snd (findMatches g)) \<subseteq> all_cells" using findMatches_char(2) [of g] by auto
  show "distinct (snd (findMatches g))" by (rule findMatches_char(3))
  show "\<And>x y. (x, y) \<in> set (snd (findMatches g)) \<Longrightarrow> cellAt g x y \<noteq> None"
    by (rule matched_occupied(2))
qed

lemma occupied_count_resolvePass:
  assumes "wf_grid g" "fst (findMatches g)"
  shows "occupied_count (resolvePass g) + 4 \<le> occupied_count g"
proof -
  have "occupied_count (resolvePass g) = occupied_count (clearPass g)"
    unfolding resolvePass_def using assms(1)
    by (simp add: occupied_count_applyGravity wf_grid_clearPass)
  then show ?thesis
    using occupied_count_clearPass [OF assms(1)] matches_at_least_four [OF assms(2)] by simp
qed

lemma passPoints_nonneg: "0 \<le> passPoints k n"
  by (simp add: passPoints_def Let_def)

lemma resolveLoop_total:
  assumes "wf_grid g"
  shows "\<exists>g' n' s'. resolveLoop g n s = Some (g', n', s') \<and> wf_grid g' \<and> \<not> fst (findMatches g') \<and>
           n \<le> n' \<and> 4 * (n' - n) + occupied_count g' \<le> occupied_count g \<and> s \<le> s' \<and>
           (\<not> fst (findMatches g) \<longrightarrow> g' = g \<and> n' = n \<and> s' = s) \<and>
           (fst (findMatches g) \<longrightarrow> n < n' \<and> (\<exists>h. wf_grid h \<and> g' = applyGravity h)) \<and>
           (fst (findMatches g) \<and> fst (findMatches (resolvePass g)) \<longrightarrow> n + 2 \<le> n')"
  using assms
proof (induction "occupied_count g" arbitrary: g n s rule: less_induct)
  case less
  show ?case
  proof (cases "fst (findMatches g)")
    case False
    then have "resolveLoop g n s = Some (g, n, s)" by (subst resolveLoop_unfold) simp
    then show ?thesis using False less.prems by simp
  next
    case True
    let ?g1 = "resolvePass g"
    let ?s1 = "s + passPoints (length (snd (findMatches g))) (n + 1)"
    have wf1: "wf_grid ?g1" using less.prems by (rule wf_grid_resolvePass)
    have dec: "occupied_count ?g1 + 4 \<le> occupied_count g"
      using less.prems True by (rule occupied_count_resolvePass)
    then have lt: "occupied_count ?g1 < occupied_count g" by simp
    have unf: "resolveLoop g n s = resolveLoop ?g1 (n + 1) ?s1"
      using True by (subst resolveLoop_unfold) simp
    from less.hyps [OF lt wf1, of "n + 1" ?s1]
    obtain g' n' s' where r: "resolveLoop ?g1 (n + 1) ?s1 = Some (g', n', s')"
      and wf': "wf_grid g'" and stable: "\<not> fst (findMatches g')"
      and n': "n + 1 \<le> n'" and occ: "4 * (n' - (n + 1)) + occupied_count g' \<le> occupied_count ?g1"
      and s': "?s1 \<le> s'"
      and same: "\<not> fst (findMatches ?g1) \<longrightarrow> g' = ?g1 \<and> n' = n + 1 \<and> s' = ?s1"
      and more: "fst (findMatches ?g1) \<longrightarrow> n + 1 < n' \<and> (\<exists>h. wf_grid h \<and> g' = applyGravity h)"
      by blast
    have shape: "\<exists>h. wf_grid h \<and> g' = applyGravity h"
    proof (cases "fst (findMatches ?g1)")
      case True
      then show ?thesis using more by simp
    next
      case False
      then have "g' = applyGravity (clearPass g)" using same by (simp add: resolvePass_def)
      then show ?thesis using wf_grid_clearPass [OF less.prems] by blast
    qed
    have "4 * (n' - n) + occupied_count g' \<le> occupied_count g" using occ dec n' by simp
    moreover have "s \<le> s'" using s' passPoints_nonneg [of "length (snd (findMatches g))" "n + 1"] by simp
    moreover have "fst (findMatches ?g1) \<longrightarrow> n + 2 \<le> n'" using more by auto
    ultimately show ?thesis using unf r wf' stable n' shape True by simp
  qed
qed

section \<open>One resolution pass and the chain loop\<close>

lemma in_bounds_all_cells: "in_bounds x y \<longleftrightarrow> (x, y) \<in> all_cells"
  by (auto simp: in_bounds_def all_cells_def)

lemma clearPass_cell:
  assumes "wf_grid g" "(x, y) \<in> all_cells"
  shows "cellAt (clearPass g) x y = (if qualifies g (x, y) then None else cellAt g x y)"
proof -
  have sub: "set (snd (findMatches g)) \<subseteq> all_cells" using findMatches_char(2) [of g] by auto
  from removeMatched_cells [OF assms(1) sub] assms(2) findMatches_char(2) [of g]
  show ?thesis by (simp add: clearPass_def)
qed

lemma clearPass_group_of_four:
  assumes "wf_grid g" "(x, y) \<in> all_cells" "cellAt g x y \<noteq> None" "4 \<le> card (group_of g x y)"
    "q \<in> group_of g x y"
  shows "cellAt (clearPass g) (fst q) (snd q) = None"
proof -
  have qin: "(fst q, snd q) \<in> all_cells" using group_of_subset [OF assms(2), of g] assms(5) by auto
  have "qualifies g (fst q, snd q)"
    using group_of_same [OF assms(5)] assms(3,4) by (simp add: qualifies_def)
  then show ?thesis using clearPass_cell [OF assms(1) qin] by simp
qed

text \<open>
  C2. In a resolution pass exactly the cells of four-directionally connected groups of
  one non-empty colour with at least four cells are cleared: a cell of the grid is
  empty after the removal step if it was non-empty with a group of size at least four,
  and keeps its content otherwise, the groups being those of the grid before any
  removal. A group of exactly four cells is cleared completely, a cell whose group has
  exactly three cells is not cleared, and the pass reports matches exactly when some
  cell qualifies.
\<close>

theorem clearPass_clears_groups_of_four:
  assumes "wf_grid g" "in_bounds x y"
  shows "cellAt (clearPass g) x y =
           (if cellAt g x y \<noteq> None \<and> 4 \<le> card (group_of g x y) then None else cellAt g x y)
       \<and> (cellAt g x y \<noteq> None \<and> card (group_of g x y) = 4 \<longrightarrow>
           (\<forall>q \<in> group_of g x y. cellAt (clearPass g) (fst q) (snd q) = None))
       \<and> (card (group_of g x y) = 3 \<longrightarrow> cellAt (clearPass g) x y = cellAt g x y)
       \<and> (fst (findMatches g) \<longleftrightarrow>
           (\<exists>p \<in> all_cells. cellAt g (fst p) (snd p) \<noteq> None \<and> 4 \<le> card (group_of g (fst p) (snd p))))"
proof -
  have xy: "(x, y) \<in> all_cells" using assms(2) by (simp add: in_bounds_all_cells)
  have main: "cellAt (clearPass g) x y =
           (if cellAt g x y \<noteq> None \<and> 4 \<le> card (group_of g x y) then None else cellAt g x y)"
    using clearPass_cell [OF assms(1) xy] by (simp add: qualifies_def)
  have three: "card (group_of g x y) = 3 \<longrightarrow> cellAt (clearPass g) x y = cellAt g x y"
    using main by simp
  have four: "cellAt g x y \<noteq> None \<and> card (group_of g x y) = 4 \<longrightarrow>
           (\<forall>q \<in> group_of g x y. cellAt (clearPass g) (fst q) (snd q) = None)"
    using clearPass_group_of_four [OF assms(1) xy] by simp
  have found: "fst (findMatches g) \<longleftrightarrow>
           (\<exists>p \<in> all_cells. cellAt g (fst p) (snd p) \<noteq> None \<and> 4 \<le> card (group_of g (fst p) (snd p)))"
    using findMatches_char(1) [of g] by (simp add: qualifies_def)
  show ?thesis using main three four found by blast
qed

lemma wf_example_L_grid: "wf_grid example_L_grid"
  by (simp add: wf_grid_def example_L_grid_def GRID_ROWS_def GRID_COLS_def)

lemma clearPass_example_L_grid: "clearPass example_L_grid = example_L_cleared"
  by code_simp

theorem clearPass_clears_groups_of_four_witness:
  "wf_grid example_L_grid \<and> in_bounds 0 9 \<and> in_bounds 3 11
   \<and> clearPass example_L_grid = example_L_cleared
   \<and> cellAt example_L_grid 0 9 = Some Red \<and> cellAt (clearPass example_L_grid) 0 9 = None
   \<and> 4 \<le> card (group_of example_L_grid 0 9)
   \<and> cellAt example_L_grid 3 11 = Some Blue \<and> cellAt (clearPass example_L_grid) 3 11 = Some Blue
   \<and> \<not> 4 \<le> card (group_of example_L_grid 3 11)"
proof -
  have b1: "in_bounds 0 9" and b2: "in_bounds 3 11"
    by (simp_all add: in_bounds_def GRID_ROWS_def GRID_COLS_def)
  have c1: "cellAt example_L_grid 0 9 = Some Red" and c2: "cellAt example_L_grid 3 11 = Some Blue"
    by (simp_all add: cellAt_def example_L_grid_def)
  have d1: "cellAt (clearPass example_L_grid) 0 9 = None"
    and d2: "cellAt (clearPass example_L_grid) 3 11 = Some Blue"
    unfolding clearPass_example_L_grid by (simp_all add: cellAt_def example_L_cleared_def)
  from clearPass_clears_groups_of_four [OF wf_example_L_grid b1] c1 d1
  have e1: "4 \<le> card (group_of example_L_grid 0 9)" by (auto split: if_splits)
  from clearPass_clears_groups_of_four [OF wf_example_L_grid b2] c2 d2
  have e2: "\<not> 4 \<le> card (group_of example_L_grid 3 11)" by (auto split: if_splits)
  show ?thesis
    using wf_example_L_grid b1 b2 clearPass_example_L_grid c1 c2 d1 d2 e1 e2 by simp
qed

lemma passPoints_spec: "passPoints k n = pass_points_spec k n"
  by (simp add: passPoints_def pass_points_spec_def Let_def)

lemma pass_points_spec_nonneg: "0 \<le> pass_points_spec k n"
  by (simp add: pass_points_spec_def)

lemma chain_points_spec_nonneg: "0 \<le> chain_points_spec n cs"
  by (induction cs arbitrary: n) (simp_all add: pass_points_spec_nonneg)

lemma no_matches_when_empty:
  assumes "wf_grid g" "occupied_count g = 0"
  shows "\<not> fst (findMatches g)"
  using occupied_count_resolvePass [OF assms(1)] assms(2) by auto

lemma resolveLoop_closed_form:
  assumes "wf_grid g" "occupied_count g \<le> k"
  shows "resolveLoop g n s =
           Some ((resolvePass ^^ length (cleared_per_pass k g)) g,
                 n + length (cleared_per_pass k g),
                 s + chain_points_spec (n + 1) (cleared_per_pass k g))"
  using assms
proof (induction k arbitrary: g n s)
  case 0
  then have "\<not> fst (findMatches g)" by (simp add: no_matches_when_empty)
  then show ?case by (subst resolveLoop_unfold) simp
next
  case (Suc k)
  show ?case
  proof (cases "fst (findMatches g)")
    case False
    then show ?thesis by (subst resolveLoop_unfold) simp
  next
    case True
    let ?c = "occupied_count g - occupied_count (clearPass g)"
    have len: "length (snd (findMatches g)) = ?c"
      using occupied_count_clearPass [OF Suc.prems(1)] by simp
    have wf1: "wf_grid (resolvePass g)" using Suc.prems(1) by (rule wf_grid_resolvePass)
    have "occupied_count (resolvePass g) + 4 \<le> occupied_count g"
      using Suc.prems(1) True by (rule occupied_count_resolvePass)
    then have le: "occupied_count (resolvePass g) \<le> k" using Suc.prems(2) by simp
    have unf: "resolveLoop g n s =
        resolveLoop (resolvePass g) (n + 1) (s + pass_points_spec ?c (n + 1))"
      using True len by (subst resolveLoop_unfold) (simp add: passPoints_spec)
    show ?thesis
      unfolding unf Suc.IH [OF wf1 le] using True
      by (simp add: funpow_swap1)
  qed
qed

lemma cleared_per_pass_passes:
  assumes "i < length (cleared_per_pass k g)"
  shows "fst (findMatches ((resolvePass ^^ i) g)) \<and>
         cleared_per_pass k g ! i =
           occupied_count ((resolvePass ^^ i) g) - occupied_count (clearPass ((resolvePass ^^ i) g))"
  using assms
proof (induction k arbitrary: g i)
  case 0
  then show ?case by simp
next
  case (Suc k)
  then have m: "fst (findMatches g)" by (auto split: if_splits)
  show ?case
  proof (cases i)
    case 0
    then show ?thesis using m by simp
  next
    case (Suc j)
    then have "j < length (cleared_per_pass k (resolvePass g))" using Suc.prems m by simp
    from Suc.IH [OF this] show ?thesis using m Suc by (simp add: funpow_swap1)
  qed
qed

lemma chain_points_spec_sum:
  "chain_points_spec n cs =
     (\<Sum>i<length cs. int (cs ! i) * 10 * 2 ^ ((n + i) - 1) + max 0 (int (cs ! i) - 4) * 5)"
proof (induction cs arbitrary: n)
  case Nil
  then show ?case by simp
next
  case (Cons c cs)
  show ?case
    by (simp add: Cons.IH sum.lessThan_Suc_shift pass_points_spec_def del: sum.lessThan_Suc)
qed

text \<open>
  C3. The passes of one call of the resolver are numbered from 1, the chain count.
  Pass number \<open>i + 1\<close> clears \<open>cleared\<close> cells, the difference of the occupied
  cells before and after its removal step, and adds
  \<open>cleared * 10 * 2 ^ (chainCount - 1) + max 0 (cleared - 4) * 5\<close> points with
  \<open>chainCount = i + 1\<close>: the score the loop returns, and the score \<open>checkForMatches\<close>
  stores, is the score at the start plus these points for every pass that cleared
  something. Four cells at chain count 1 give 40 points, five cells at chain count 2
  give 105. The score is a JavaScript number; the sums are exact as long as the score
  does not exceed \<open>2 ^ 53\<close>, which is assumed.
\<close>

theorem pass_points_added:
  assumes "wf_grid g" "0 \<le> score st"
    and "score st + chain_points_spec 1 (cleared_per_pass (occupied_count g) g) \<le> 2 ^ 53"
  shows "resolveLoop g 0 (score st) =
           Some ((resolvePass ^^ length (cleared_per_pass (occupied_count g) g)) g,
                 length (cleared_per_pass (occupied_count g) g),
                 score st +
                   (\<Sum>i<length (cleared_per_pass (occupied_count g) g).
                      int (cleared_per_pass (occupied_count g) g ! i) * 10 * 2 ^ ((i + 1) - 1)
                      + max 0 (int (cleared_per_pass (occupied_count g) g ! i) - 4) * 5))
       \<and> (\<exists>st'. checkForMatches c1 c2 g st = Some st' \<and>
             score st' = score st +
                   (\<Sum>i<length (cleared_per_pass (occupied_count g) g).
                      int (cleared_per_pass (occupied_count g) g ! i) * 10 * 2 ^ ((i + 1) - 1)
                      + max 0 (int (cleared_per_pass (occupied_count g) g ! i) - 4) * 5))
       \<and> (\<forall>i<length (cleared_per_pass (occupied_count g) g).
             fst (findMatches ((resolvePass ^^ i) g)) \<and>
             cleared_per_pass (occupied_count g) g ! i =
               occupied_count ((resolvePass ^^ i) g) - occupied_count (clearPass ((resolvePass ^^ i) g)))
       \<and> \<not> fst (findMatches ((resolvePass ^^ length (cleared_per_pass (occupied_count g) g)) g))"
proof -
  let ?cs = "cleared_per_pass (occupied_count g) g"
  let ?sum = "\<Sum>i<length ?cs. int (?cs ! i) * 10 * 2 ^ ((i + 1) - 1) + max 0 (int (?cs ! i) - 4) * 5"
  have sum: "chain_points_spec 1 ?cs = ?sum"
    using chain_points_spec_sum [of 1 ?cs] by (simp add: add.commute)
  have loop: "resolveLoop g 0 (score st) = Some ((resolvePass ^^ length ?cs) g, length ?cs, score st + ?sum)"
    using resolveLoop_closed_form [OF assms(1) order_refl, of 0 "score st"] sum by simp
  then have chk: "\<exists>st'. checkForMatches c1 c2 g st = Some st' \<and> score st' = score st + ?sum"
    by (simp add: checkForMatches_def)
  have passes: "\<forall>i<length ?cs. fst (findMatches ((resolvePass ^^ i) g)) \<and>
      ?cs ! i = occupied_count ((resolvePass ^^ i) g) - occupied_count (clearPass ((resolvePass ^^ i) g))"
    using cleared_per_pass_passes by blast
  have stable: "\<not> fst (findMatches ((resolvePass ^^ length ?cs) g))"
    using resolveLoop_total [OF assms(1), of 0 "score st"] loop by auto
  show ?thesis using loop chk passes stable by blast
qed

lemma wf_example_chain_grid: "wf_grid example_chain_grid"
  by (simp add: wf_grid_def example_chain_grid_def GRID_ROWS_def GRID_COLS_def)

theorem pass_points_added_witness:
  "wf_grid example_chain_grid \<and> 0 \<le> score example_game
   \<and> cleared_per_pass (occupied_count example_chain_grid) example_chain_grid = [4, 5]
   \<and> score example_game + chain_points_spec 1 [4, 5] \<le> 2 ^ 53
   \<and> pass_points_spec 4 1 = 40 \<and> pass_points_spec 5 2 = 105
   \<and> (resolvePass ^^ 2) example_chain_grid = createEmptyGrid
   \<and> resolveLoop example_chain_grid 0 (score example_game) = Some (createEmptyGrid, 2, 40 + 105)
   \<and> (\<exists>st'. checkForMatches Red Blue example_chain_grid example_game = Some st' \<and> score st' = 145)"
proof -
  have sc: "score example_game = 0" by (simp add: example_game_def)
  have cs: "cleared_per_pass (occupied_count example_chain_grid) example_chain_grid = [4, 5]"
    by code_simp
  have pts: "pass_points_spec 4 1 = 40" "pass_points_spec 5 2 = 105"
    by (simp_all add: pass_points_spec_def)
  have tot: "chain_points_spec 1 [4, 5] = 145" by (simp add: pass_points_spec_def)
  have "resolvePass (resolvePass example_chain_grid) = createEmptyGrid" by code_simp
  then have fin: "(resolvePass ^^ 2) example_chain_grid = createEmptyGrid"
    by (simp add: numeral_2_eq_2)
  have rng: "score example_game + chain_points_spec 1 (cleared_per_pass (occupied_count example_chain_grid) example_chain_grid) \<le> 2 ^ 53"
    unfolding cs tot sc by simp
  have "0 \<le> score example_game" by (simp add: sc)
  from pass_points_added [OF wf_example_chain_grid this rng, of Red Blue]
  show ?thesis
    unfolding cs using wf_example_chain_grid sc pts tot fin
    by (simp add: lessThan_Suc numeral_2_eq_2)
qed

text \<open>
  C6. For every grid the chain loop returns after finitely many passes: it ends in a
  grid without qualifying groups, every pass that clears lowers the number of occupied
  cells by at least four, so the number of passes is at most a quarter of the occupied
  cells. When the first pass clears something and the grid after its gravity step has
  a qualifying group again, the same call runs the second pass too and returns with a
  chain count of at least two above the one it started with.
\<close>

theorem resolveLoop_terminates:
  assumes "wf_grid g"
  shows "\<exists>g' n' s'. resolveLoop g n s = Some (g', n', s') \<and> \<not> fst (findMatches g') \<and>
           4 * (n' - n) + occupied_count g' \<le> occupied_count g \<and>
           (fst (findMatches g) \<longrightarrow> occupied_count (resolvePass g) + 4 \<le> occupied_count g) \<and>
           (fst (findMatches g) \<and> fst (findMatches (resolvePass g)) \<longrightarrow> n + 2 \<le> n')"
proof -
  from resolveLoop_total [OF assms, of n s]
  obtain g' n' s' where "resolveLoop g n s = Some (g', n', s')" "\<not> fst (findMatches g')"
    "4 * (n' - n) + occupied_count g' \<le> occupied_count g"
    "fst (findMatches g) \<and> fst (findMatches (resolvePass g)) \<longrightarrow> n + 2 \<le> n'"
    by blast
  moreover have "fst (findMatches g) \<longrightarrow> occupied_count (resolvePass g) + 4 \<le> occupied_count g"
    using occupied_count_resolvePass [OF assms] by simp
  ultimately show ?thesis by blast
qed

lemma wf_example_cascade_grid: "wf_grid example_cascade_grid"
  by (simp add: wf_grid_def example_cascade_grid_def GRID_ROWS_def GRID_COLS_def)

lemma example_cascade_run: "resolveLoop example_cascade_grid 0 0 = Some (example_cascade_end, 2, 120)"
proof -
  have m1: "fst (findMatches example_cascade_grid)" by code_simp
  have l1: "length (snd (findMatches example_cascade_grid)) = 4" by code_simp
  have p1: "resolvePass example_cascade_grid = example_cascade_mid" by code_simp
  have m2: "fst (findMatches example_cascade_mid)" by code_simp
  have l2: "length (snd (findMatches example_cascade_mid)) = 4" by code_simp
  have p2: "resolvePass example_cascade_mid = example_cascade_end" by code_simp
  have m3: "\<not> fst (findMatches example_cascade_end)" by code_simp
  have s3: "resolveLoop example_cascade_end 2 120 = Some (example_cascade_end, 2, 120)"
    using m3 by (subst resolveLoop_unfold) simp
  have s2: "resolveLoop example_cascade_mid 1 40 = Some (example_cascade_end, 2, 120)"
    using m2 l2 p2 s3 by (subst resolveLoop_unfold) (simp add: passPoints_def numeral_2_eq_2)
  show ?thesis
    using m1 l1 p1 s2 by (subst resolveLoop_unfold) (simp add: passPoints_def)
qed

theorem resolveLoop_terminates_witness:
  "wf_grid example_cascade_grid \<and> fst (findMatches example_cascade_grid)
   \<and> fst (findMatches (resolvePass example_cascade_grid))
   \<and> resolveLoop example_cascade_grid 0 0 = Some (example_cascade_end, 2, 120)
   \<and> \<not> fst (findMatches example_cascade_end)
   \<and> occupied_count (resolvePass example_cascade_grid) + 4 \<le> occupied_count example_cascade_grid"
proof -
  have m1: "fst (findMatches example_cascade_grid)" by code_simp
  have m2: "fst (findMatches (resolvePass example_cascade_grid))" by code_simp
  from resolveLoop_terminates [OF wf_example_cascade_grid, of 0 0] m1 m2
  show ?thesis
    using wf_example_cascade_grid example_cascade_run by auto
qed

section \<open>Game controller: game over, rejected requests, landing\<close>

lemma in_bounds_iff: "in_bounds x y \<longleftrightarrow> 0 \<le> x \<and> x < 6 \<and> 0 \<le> y \<and> y < 12"
  by (simp add: in_bounds_def GRID_ROWS_def GRID_COLS_def)

lemma row_one_nonempty:
  assumes "wf_grid g"
  shows "list_ex (\<lambda>cell. cell \<noteq> None) (g ! 1) \<longleftrightarrow> (\<exists>x. 0 \<le> x \<and> x < GRID_COLS \<and> cellAt g x 1 \<noteq> None)"
proof -
  have len: "length (g ! 1) = 6" using assms by (simp add: wf_grid_row_length)
  show ?thesis
  proof
    assume "list_ex (\<lambda>cell. cell \<noteq> None) (g ! 1)"
    then obtain i where i: "i < 6" "g ! 1 ! i \<noteq> None" using len by (auto simp: list_ex_length)
    then have "0 \<le> int i \<and> int i < GRID_COLS \<and> cellAt g (int i) 1 \<noteq> None"
      by (simp add: GRID_COLS_def cellAt_def)
    then show "\<exists>x. 0 \<le> x \<and> x < GRID_COLS \<and> cellAt g x 1 \<noteq> None" by blast
  next
    assume "\<exists>x. 0 \<le> x \<and> x < GRID_COLS \<and> cellAt g x 1 \<noteq> None"
    then obtain x where x: "0 \<le> x" "x < 6" "g ! 1 ! nat x \<noteq> None"
      by (auto simp: GRID_COLS_def cellAt_def)
    then have "nat x < length (g ! 1)" using len by simp
    then show "list_ex (\<lambda>cell. cell \<noteq> None) (g ! 1)" using x(3) by (auto simp: list_ex_length)
  qed
qed

lemma checkForMatches_total:
  assumes "wf_grid g"
  shows "\<exists>g' n' t'. resolveLoop g 0 (score s) = Some (g', n', t') \<and>
           checkForMatches c1 c2 g s =
             Some (s\<lparr>grid := g', score := t', currentPuyo := nextPuyo s,
                     nextPuyo := Some (generatePuyoPair c1 c2), chainCounter := 0,
                     gameState := (if list_ex (\<lambda>cell. cell \<noteq> None) (g' ! 1) then Over
                                   else gameState s)\<rparr>) \<and>
           wf_grid g' \<and> \<not> fst (findMatches g') \<and> score s \<le> t' \<and>
           (g' = g \<or> (\<exists>h. wf_grid h \<and> g' = applyGravity h))"
proof -
  from resolveLoop_total [OF assms, of 0 "score s"]
  obtain g' n' t' where r: "resolveLoop g 0 (score s) = Some (g', n', t')"
    and p: "wf_grid g'" "\<not> fst (findMatches g')" "score s \<le> t'"
      "\<not> fst (findMatches g) \<longrightarrow> g' = g \<and> n' = 0 \<and> t' = score s"
      "fst (findMatches g) \<longrightarrow> 0 < n' \<and> (\<exists>h. wf_grid h \<and> g' = applyGravity h)"
    by blast
  have "g' = g \<or> (\<exists>h. wf_grid h \<and> g' = applyGravity h)" using p(4,5) by blast
  then show ?thesis using r p(1,2,3) by (simp add: checkForMatches_def)
qed


lemma wf_example_tall_grid: "wf_grid example_tall_grid"
  by (simp add: wf_grid_def example_tall_grid_def GRID_ROWS_def GRID_COLS_def)



text \<open>
  C9. A move or a turn changes nothing when the game is not active or is paused. A
  move to the left or right, or a turn, whose candidate piece fails validation changes
  nothing either: piece, grid, score and game state all stay as they were.
\<close>

theorem rejected_requests_change_nothing:
  "(gameState s \<noteq> Active \<or> isPaused s \<longrightarrow>
      movePuyo c1 c2 d s = Some (Inr s) \<and> rotatePuyo r s = s) \<and>
   (currentPuyo s = Some p \<and> d \<noteq> Down \<and> \<not> isValidMove (grid s) (shiftPuyo d p) \<longrightarrow>
      movePuyo c1 c2 d s = Some (Inr s)) \<and>
   (currentPuyo s = Some p \<and> \<not> isValidMove (grid s) (turnPuyo r p) \<longrightarrow> rotatePuyo r s = s)"
  by (auto simp: movePuyo_def rotatePuyo_def Let_def split: option.splits)

theorem rejected_requests_change_nothing_witness:
  "isPaused (example_edge_game\<lparr>isPaused := True\<rparr>)
   \<and> movePuyo Red Blue Down (example_edge_game\<lparr>isPaused := True\<rparr>)
       = Some (Inr (example_edge_game\<lparr>isPaused := True\<rparr>))
   \<and> rotatePuyo RotateRight (example_edge_game\<lparr>isPaused := True\<rparr>)
       = example_edge_game\<lparr>isPaused := True\<rparr>
   \<and> currentPuyo example_edge_game
       = Some \<lparr>color1 = Some Green, color2 = Some Yellow, puyo_x = 0, puyo_y = 5, rotation = 0\<rparr>
   \<and> \<not> isValidMove (grid example_edge_game)
         (shiftPuyo Left \<lparr>color1 = Some Green, color2 = Some Yellow, puyo_x = 0, puyo_y = 5, rotation = 0\<rparr>)
   \<and> movePuyo Red Blue Left example_edge_game = Some (Inr example_edge_game)
   \<and> \<not> isValidMove (grid example_edge_game)
         (turnPuyo RotateLeft \<lparr>color1 = Some Green, color2 = Some Yellow, puyo_x = 0, puyo_y = 5, rotation = 0\<rparr>)
   \<and> rotatePuyo RotateLeft example_edge_game = example_edge_game"
proof -
  let ?p = "\<lparr>color1 = Some Green, color2 = Some Yellow, puyo_x = 0, puyo_y = 5, rotation = 0\<rparr>"
  let ?sp = "example_edge_game\<lparr>isPaused := True\<rparr>"
  have a: "isPaused ?sp" by simp
  have b: "currentPuyo example_edge_game = Some ?p" by (simp add: example_edge_game_def)
  have c: "\<not> isValidMove (grid example_edge_game) (shiftPuyo Left ?p)"
    by (simp add: isValidMove_def shiftPuyo_def)
  have d: "\<not> isValidMove (grid example_edge_game) (turnPuyo RotateLeft ?p)"
    by (simp add: isValidMove_def turnPuyo_def signed_modulo_int_def)
  from rejected_requests_change_nothing [of ?sp Red Blue Down RotateRight ?p]
       rejected_requests_change_nothing [of example_edge_game Red Blue Left RotateLeft ?p]
  show ?thesis using a b c d by simp
qed

lemma writeCell_in_bounds:
  assumes "wf_grid g" "in_bounds x y"
  shows "writeCell g x y v = Inr (setCell g x y v)"
proof -
  have b: "0 \<le> x" "x < 6" "0 \<le> y" "y < 12" using assms(2) by (simp_all add: in_bounds_iff)
  have "length g = 12" "length (g ! nat y) = 6"
    using assms(1) b by (simp_all add: wf_grid_length wf_grid_row_length)
  then show ?thesis using b by (simp add: writeCell_def setCell_def Let_def)
qed

lemma commitPuyo_in_bounds:
  assumes "wf_grid g" "in_bounds (puyo_x p) (puyo_y p)"
    "getSecondPuyoPosition (puyo_x p) (puyo_y p) (rotation p) = (x2, y2)" "in_bounds x2 y2"
  shows "commitPuyo g p = Inr (setCell (setCell g (puyo_x p) (puyo_y p) (color1 p)) x2 y2 (color2 p))"
proof -
  have wf1: "wf_grid (setCell g (puyo_x p) (puyo_y p) (color1 p))"
    using assms(1) by (rule wf_grid_setCell)
  show ?thesis
    unfolding commitPuyo_def assms(3)
    by (simp add: writeCell_in_bounds [OF assms(1,2)] writeCell_in_bounds [OF wf1 assms(4)])
qed

lemma second_differs:
  assumes "rot \<in> {0, 1, 2, 3}" "getSecondPuyoPosition x y rot = (x2, y2)"
  shows "(x2, y2) \<noteq> (x, y)"
  using assms by auto

text \<open>
  A rejected down request for a piece whose two cells lie on the grid: the grid handed
  to the resolver has the two colours at the anchor and at the second cell of the
  piece as it stood, and every other cell as before; the queued piece becomes the
  falling one.
\<close>

lemma blocked_down_commits_in_bounds:
  assumes "currentPuyo s = Some p" "gameState s = Active" "\<not> isPaused s" "wf_grid (grid s)"
    and "rotation p \<in> {0, 1, 2, 3}"
    and "in_bounds (puyo_x p) (puyo_y p)"
    and "getSecondPuyoPosition (puyo_x p) (puyo_y p) (rotation p) = (x2, y2)" "in_bounds x2 y2"
    and "\<not> isValidMove (grid s) (shiftPuyo Down p)"
  shows "\<exists>placed s'. commitPuyo (grid s) p = Inr placed \<and>
           cellAt placed (puyo_x p) (puyo_y p) = color1 p \<and> cellAt placed x2 y2 = color2 p \<and>
           (\<forall>x y. in_bounds x y \<and> (x, y) \<noteq> (puyo_x p, puyo_y p) \<and> (x, y) \<noteq> (x2, y2) \<longrightarrow>
              cellAt placed x y = cellAt (grid s) x y) \<and>
           checkForMatches c1 c2 placed (s\<lparr>grid := placed, currentPuyo := None\<rparr>) = Some s' \<and>
           movePuyo c1 c2 Down s = Some (Inr s') \<and>
           currentPuyo s' = nextPuyo s \<and> nextPuyo s' = Some (generatePuyoPair c1 c2)"
proof -
  let ?g1 = "setCell (grid s) (puyo_x p) (puyo_y p) (color1 p)"
  let ?placed = "setCell ?g1 x2 y2 (color2 p)"
  let ?s1 = "s\<lparr>grid := ?placed, currentPuyo := None\<rparr>"
  have a: "(puyo_x p, puyo_y p) \<in> all_cells" and b: "(x2, y2) \<in> all_cells"
    using assms(6,8) by (simp_all add: in_bounds_all_cells)
  have ne: "(x2, y2) \<noteq> (puyo_x p, puyo_y p)" using assms(5,7) by (rule second_differs)
  have wf1: "wf_grid ?g1" using assms(4) by (rule wf_grid_setCell)
  have wf2: "wf_grid ?placed" using wf1 by (rule wf_grid_setCell)
  have commit: "commitPuyo (grid s) p = Inr ?placed"
    using assms(4,6,7,8) by (rule commitPuyo_in_bounds)
  have cell: "cellAt ?placed x y =
      (if (x, y) = (x2, y2) then color2 p
       else if (x, y) = (puyo_x p, puyo_y p) then color1 p else cellAt (grid s) x y)"
    if "(x, y) \<in> all_cells" for x y
  proof -
    have e1: "cellAt ?placed x y = (if x = x2 \<and> y = y2 then color2 p else cellAt ?g1 x y)"
      by (rule cellAt_setCell [OF wf1 b that])
    have e2: "cellAt ?g1 x y =
        (if x = puyo_x p \<and> y = puyo_y p then color1 p else cellAt (grid s) x y)"
      by (rule cellAt_setCell [OF assms(4) a that])
    show ?thesis unfolding e1 e2 by auto
  qed
  have c1: "cellAt ?placed (puyo_x p) (puyo_y p) = color1 p" using cell [OF a] ne by auto
  have c2: "cellAt ?placed x2 y2 = color2 p" using cell [OF b] by simp
  have rest: "\<forall>x y. in_bounds x y \<and> (x, y) \<noteq> (puyo_x p, puyo_y p) \<and> (x, y) \<noteq> (x2, y2) \<longrightarrow>
      cellAt ?placed x y = cellAt (grid s) x y"
    using cell by (simp add: in_bounds_all_cells)
  from checkForMatches_total [OF wf2, of ?s1 c1 c2]
  obtain s' where chk: "checkForMatches c1 c2 ?placed ?s1 = Some s'"
    and nxt: "currentPuyo s' = nextPuyo s" "nextPuyo s' = Some (generatePuyoPair c1 c2)"
    by auto
  have "placePuyo c1 c2 s = Some (Inr s')"
    using assms(1) commit chk by (simp add: placePuyo_def)
  then have mv: "movePuyo c1 c2 Down s = Some (Inr s')"
    using assms(1,2,3,9) by (simp add: movePuyo_def Let_def)
  show ?thesis using commit c1 c2 rest chk mv nxt by blast
qed

lemma wf_example_stack_grid: "wf_grid example_stack_grid"
  by (simp add: wf_grid_def example_stack_grid_def GRID_ROWS_def GRID_COLS_def)

section \<open>Reachable states and the bounds of the commit\<close>

lemma wf_createEmptyGrid: "wf_grid createEmptyGrid"
  by (simp add: wf_grid_def createEmptyGrid_def GRID_ROWS_def GRID_COLS_def list_all_length)

lemma cellAt_createEmptyGrid: "in_bounds x y \<Longrightarrow> cellAt createEmptyGrid x y = None"
proof -
  assume "in_bounds x y"
  then have "nat y < 12" "nat x < 6" by (auto simp: in_bounds_iff)
  then show ?thesis by (simp add: cellAt_def createEmptyGrid_def GRID_ROWS_def GRID_COLS_def)
qed

lemma top_rows_empty_createEmptyGrid: "top_rows_empty createEmptyGrid"
  by (simp add: top_rows_empty_def cellAt_createEmptyGrid in_bounds_iff GRID_COLS_def)

lemma queued_ok_generatePuyoPair: "queued_ok (generatePuyoPair c1 c2)"
  by (simp add: queued_ok_def spawn_shaped_def generatePuyoPair_def)

lemma queued_ok_piece_ok: "queued_ok p \<Longrightarrow> piece_ok g p"
  by (simp add: queued_ok_def piece_ok_def spawn_shaped_def)

lemma game_inv_initialGame: "game_inv initialGame"
  by (simp add: game_inv_def initialGame_def)

lemma game_inv_startGame: "game_inv (startGame c1 c2 c3 c4 s)"
  by (simp add: game_inv_def startGame_def wf_createEmptyGrid top_rows_empty_createEmptyGrid
      queued_ok_generatePuyoPair queued_ok_piece_ok)

lemma game_inv_togglePause: "game_inv s \<Longrightarrow> game_inv (togglePause s)"
  by (auto simp: game_inv_def togglePause_def split: option.splits)

lemma rotation_turnPuyo:
  assumes "rotation p \<in> {0, 1, 2, 3}"
  shows "rotation (turnPuyo r p) \<in> {0, 1, 2, 3}"
  using assms by (cases r) (auto simp: turnPuyo_def signed_modulo_int_def)

lemma piece_ok_turnPuyo:
  assumes "piece_ok g p" "isValidMove g (turnPuyo r p)"
  shows "piece_ok g (turnPuyo r p)"
proof -
  have "rotation p \<in> {0, 1, 2, 3}" using assms(1) unfolding piece_ok_def by blast
  then have "rotation (turnPuyo r p) \<in> {0, 1, 2, 3}" by (rule rotation_turnPuyo)
  moreover have "color1 (turnPuyo r p) = color1 p" "color2 (turnPuyo r p) = color2 p"
    by (simp_all add: turnPuyo_def)
  ultimately show ?thesis using assms by (simp add: piece_ok_def)
qed

lemma game_inv_rotatePuyo: "game_inv s \<Longrightarrow> game_inv (rotatePuyo r s)"
  by (auto simp: game_inv_def rotatePuyo_def Let_def piece_ok_turnPuyo split: option.splits)

lemma piece_ok_shiftPuyo:
  assumes "piece_ok g p" "isValidMove g (shiftPuyo d p)"
  shows "piece_ok g (shiftPuyo d p)"
  using assms by (cases d) (simp_all add: piece_ok_def shiftPuyo_def)

lemma spawn_can_fall:
  assumes "top_rows_empty g" "spawn_shaped p"
  shows "isValidMove g (shiftPuyo Down p)"
  using assms
  by (simp add: top_rows_empty_def spawn_shaped_def isValidMove_def shiftPuyo_def
      GRID_ROWS_def GRID_COLS_def)

lemma landing_piece_valid:
  assumes "piece_ok g p" "top_rows_empty g" "\<not> isValidMove g (shiftPuyo Down p)"
  shows "isValidMove g p"
  using assms spawn_can_fall by (auto simp: piece_ok_def)

lemma isValidMove_bounds:
  assumes "isValidMove g p" "getSecondPuyoPosition (puyo_x p) (puyo_y p) (rotation p) = (x2, y2)"
  shows "in_bounds (puyo_x p) (puyo_y p)" "in_bounds x2 y2"
    "cellAt g (puyo_x p) (puyo_y p) = None" "cellAt g x2 y2 = None"
  using assms by (simp_all add: isValidMove_def in_bounds_def)

lemma settled_second_None:
  assumes "2 \<le> length col" "settled col ! 1 = None"
  shows "settled col ! 0 = None"
proof (cases "filter (\<lambda>c. c = None) col")
  case Nil
  then have eq: "settled col = filter (\<lambda>c. c \<noteq> None) col" by (simp add: settled_def)
  have "length (filter (\<lambda>c. c = None) col) + length (filter (\<lambda>c. c \<noteq> None) col) = length col"
    by (rule sum_length_filter_compl)
  then have "1 < length (filter (\<lambda>c. c \<noteq> None) col)" using Nil assms(1) by simp
  then have "filter (\<lambda>c. c \<noteq> None) col ! 1 \<in> set (filter (\<lambda>c. c \<noteq> None) col)"
    by (rule nth_mem)
  then have "settled col ! 1 \<noteq> None" unfolding eq by simp
  then show ?thesis using assms(2) by simp
next
  case (Cons a as)
  then have "a \<in> set (filter (\<lambda>c. c = None) col)" by simp
  then have "a = None" by simp
  then show ?thesis using Cons by (simp add: settled_def)
qed

lemma top_rows_empty_settled:
  assumes "wf_grid h" "\<forall>x. 0 \<le> x \<and> x < GRID_COLS \<longrightarrow> cellAt (applyGravity h) x 1 = None"
  shows "top_rows_empty (applyGravity h)"
  unfolding top_rows_empty_def
proof (intro allI impI)
  fix x assume x: "0 \<le> x \<and> x < GRID_COLS"
  then have x6: "0 \<le> x" "x < 6" by (simp_all add: GRID_COLS_def)
  let ?g = "applyGravity h"
  have wf: "wf_grid ?g" using assms(1) by (rule wf_grid_applyGravity)
  have len: "length ?g = 12" using wf by (rule wf_grid_length)
  have col: "column ?g x = settled (column h x)" using assms(1) x6 by (rule applyGravity_column)
  have l2: "2 \<le> length (column h x)" using assms(1) by (simp add: length_column wf_grid_length)
  have c1: "cellAt ?g x 1 = settled (column h x) ! 1"
    using cellAt_column [of 1 ?g x] len col by simp
  have c0: "cellAt ?g x 0 = settled (column h x) ! 0"
    using cellAt_column [of 0 ?g x] len col by simp
  have one: "cellAt ?g x 1 = None" using assms(2) x by simp
  then have "settled (column h x) ! 1 = None" using c1 by simp
  with l2 have "settled (column h x) ! 0 = None" by (rule settled_second_None)
  then show "cellAt ?g x 0 = None \<and> cellAt ?g x 1 = None" using c0 one by simp
qed

lemma top_rows_empty_landed:
  assumes wf: "wf_grid g" and top: "top_rows_empty g" and valid: "isValidMove g p"
    and rot: "rotation p \<in> {0, 1, 2, 3}"
    and cols: "color1 p \<noteq> None" "color2 p \<noteq> None"
    and blocked: "\<not> isValidMove g (shiftPuyo Down p)"
    and sec: "getSecondPuyoPosition (puyo_x p) (puyo_y p) (rotation p) = (x2, y2)"
    and row1: "\<forall>x. 0 \<le> x \<and> x < GRID_COLS \<longrightarrow>
        cellAt (setCell (setCell g (puyo_x p) (puyo_y p) (color1 p)) x2 y2 (color2 p)) x 1 = None"
  shows "top_rows_empty (setCell (setCell g (puyo_x p) (puyo_y p) (color1 p)) x2 y2 (color2 p))"
proof -
  let ?ax = "puyo_x p" and ?ay = "puyo_y p"
  let ?g1 = "setCell g ?ax ?ay (color1 p)"
  let ?placed = "setCell ?g1 x2 y2 (color2 p)"
  note b = isValidMove_bounds [OF valid sec]
  have a: "(?ax, ?ay) \<in> all_cells" and s: "(x2, y2) \<in> all_cells"
    using b(1,2) by (simp_all add: in_bounds_all_cells)
  have ab: "0 \<le> ?ax" "?ax < 6" "0 \<le> ?ay" "?ay < 12" and sb: "0 \<le> x2" "x2 < 6" "0 \<le> y2" "y2 < 12"
    using b(1,2) by (simp_all add: in_bounds_iff)
  have wf1: "wf_grid ?g1" using wf by (rule wf_grid_setCell)
  have cell: "cellAt ?placed x y =
      (if x = x2 \<and> y = y2 then color2 p
       else if x = ?ax \<and> y = ?ay then color1 p else cellAt g x y)"
    if "(x, y) \<in> all_cells" for x y
  proof -
    have e1: "cellAt ?placed x y = (if x = x2 \<and> y = y2 then color2 p else cellAt ?g1 x y)"
      by (rule cellAt_setCell [OF wf1 s that])
    have e2: "cellAt ?g1 x y = (if x = ?ax \<and> y = ?ay then color1 p else cellAt g x y)"
      by (rule cellAt_setCell [OF wf a that])
    show ?thesis unfolding e1 e2 by simp
  qed
  have ne: "(x2, y2) \<noteq> (?ax, ?ay)" using rot sec by (rule second_differs)
  have anchor_row: "?ay \<noteq> 1"
  proof
    assume "?ay = 1"
    then have "cellAt ?placed ?ax 1 = color1 p" using cell [OF a] ne by auto
    moreover have "cellAt ?placed ?ax 1 = None" using row1 ab by (simp add: GRID_COLS_def)
    ultimately show False using cols(1) by simp
  qed
  have second_row: "y2 \<noteq> 1"
  proof
    assume "y2 = 1"
    then have "cellAt ?placed x2 1 = color2 p" using cell [OF s] by simp
    moreover have "cellAt ?placed x2 1 = None" using row1 sb by (simp add: GRID_COLS_def)
    ultimately show False using cols(2) by simp
  qed
  have not_top: "?ay \<noteq> 0 \<and> y2 \<noteq> 0"
  proof (rule ccontr)
    assume "\<not> (?ay \<noteq> 0 \<and> y2 \<noteq> 0)"
    then have zero: "?ay = 0 \<or> y2 = 0" by blast
    from rot consider "rotation p = 0" | "rotation p = 2" | "rotation p = 1" | "rotation p = 3"
      by auto
    then show False
    proof cases
      case 1
      then have "y2 = ?ay - 1" using sec by simp
      then show False using zero sb ab anchor_row by auto
    next
      case 2
      then have "y2 = ?ay + 1" using sec by simp
      then show False using zero sb ab second_row by auto
    next
      case 3
      then have xy: "x2 = ?ax + 1" "y2 = ?ay" using sec by simp_all
      then have y0: "?ay = 0" using zero by auto
      have "cellAt g ?ax 1 = None" "cellAt g (?ax + 1) 1 = None"
        using top ab sb xy by (simp_all add: top_rows_empty_def GRID_COLS_def)
      then have "isValidMove g (shiftPuyo Down p)"
        using 3 y0 ab sb xy
        by (simp add: isValidMove_def shiftPuyo_def GRID_ROWS_def GRID_COLS_def)
      then show False using blocked by simp
    next
      case 4
      then have xy: "x2 = ?ax - 1" "y2 = ?ay" using sec by simp_all
      then have y0: "?ay = 0" using zero by auto
      have "cellAt g ?ax 1 = None" "cellAt g (?ax - 1) 1 = None"
        using top ab sb xy by (simp_all add: top_rows_empty_def GRID_COLS_def)
      then have "isValidMove g (shiftPuyo Down p)"
        using 4 y0 ab sb xy
        by (simp add: isValidMove_def shiftPuyo_def GRID_ROWS_def GRID_COLS_def)
      then show False using blocked by simp
    qed
  qed
  show ?thesis
    unfolding top_rows_empty_def
  proof (intro allI impI)
    fix x assume x: "0 \<le> x \<and> x < GRID_COLS"
    then have "(x, 0) \<in> all_cells" by (simp add: all_cells_iff GRID_COLS_def)
    from cell [OF this] have "cellAt ?placed x 0 = cellAt g x 0" using not_top by auto
    moreover have "cellAt g x 0 = None" using top x by (simp add: top_rows_empty_def)
    ultimately show "cellAt ?placed x 0 = None \<and> cellAt ?placed x 1 = None"
      using row1 x by simp
  qed
qed

lemma landing_inv:
  assumes inv: "game_inv s" and cur: "currentPuyo s = Some p" and act: "gameState s = Active"
    and blocked: "\<not> isValidMove (grid s) (shiftPuyo Down p)"
  shows "\<exists>s'. placePuyo c1 c2 s = Some (Inr s') \<and> game_inv s'"
proof -
  let ?g = "grid s"
  have wf: "wf_grid ?g" and top: "top_rows_empty ?g" and ok: "piece_ok ?g p"
    and nxt: "case nextPuyo s of None \<Rightarrow> True | Some q \<Rightarrow> queued_ok q"
    using inv act cur by (simp_all add: game_inv_def)
  have valid: "isValidMove ?g p" using ok top blocked by (rule landing_piece_valid)
  obtain x2 y2 where sec: "getSecondPuyoPosition (puyo_x p) (puyo_y p) (rotation p) = (x2, y2)"
    by (cases "getSecondPuyoPosition (puyo_x p) (puyo_y p) (rotation p)")
  note b = isValidMove_bounds [OF valid sec]
  let ?placed = "setCell (setCell ?g (puyo_x p) (puyo_y p) (color1 p)) x2 y2 (color2 p)"
  let ?s1 = "s\<lparr>grid := ?placed, currentPuyo := None\<rparr>"
  have commit: "commitPuyo ?g p = Inr ?placed" using wf b(1) sec b(2) by (rule commitPuyo_in_bounds)
  have wfp: "wf_grid ?placed" using wf by (simp add: wf_grid_setCell)
  from checkForMatches_total [OF wfp, of ?s1 c1 c2]
  obtain g' t' where chk: "checkForMatches c1 c2 ?placed ?s1 =
             Some (?s1\<lparr>grid := g', score := t', currentPuyo := nextPuyo ?s1,
                     nextPuyo := Some (generatePuyoPair c1 c2), chainCounter := 0,
                     gameState := (if list_ex (\<lambda>cell. cell \<noteq> None) (g' ! 1) then Over
                                   else gameState ?s1)\<rparr>)"
    and wf': "wf_grid g'"
    and shape: "g' = ?placed \<or> (\<exists>h. wf_grid h \<and> g' = applyGravity h)"
    by blast
  let ?s' = "?s1\<lparr>grid := g', score := t', currentPuyo := nextPuyo ?s1,
                     nextPuyo := Some (generatePuyoPair c1 c2), chainCounter := 0,
                     gameState := (if list_ex (\<lambda>cell. cell \<noteq> None) (g' ! 1) then Over
                                   else gameState ?s1)\<rparr>"
  have place: "placePuyo c1 c2 s = Some (Inr ?s')"
    using cur commit chk by (simp add: placePuyo_def)
  have "game_inv ?s'"
  proof (cases "list_ex (\<lambda>cell. cell \<noteq> None) (g' ! 1)")
    case True
    then show ?thesis by (simp add: game_inv_def)
  next
    case False
    then have row1: "\<forall>x. 0 \<le> x \<and> x < GRID_COLS \<longrightarrow> cellAt g' x 1 = None"
      using row_one_nonempty [OF wf'] by blast
    have top': "top_rows_empty g'"
      using shape
    proof
      assume eq: "g' = ?placed"
      have "top_rows_empty ?placed"
      proof (rule top_rows_empty_landed [OF wf top valid _ _ _ blocked sec])
        show "rotation p \<in> {0, 1, 2, 3}" "color1 p \<noteq> None" "color2 p \<noteq> None"
          using ok unfolding piece_ok_def by blast+
        show "\<forall>x. 0 \<le> x \<and> x < GRID_COLS \<longrightarrow> cellAt ?placed x 1 = None"
          using row1 unfolding eq .
      qed
      then show ?thesis unfolding eq .
    next
      assume "\<exists>h. wf_grid h \<and> g' = applyGravity h"
      then obtain h where h: "wf_grid h" "g' = applyGravity h" by blast
      show ?thesis using top_rows_empty_settled [OF h(1)] row1 unfolding h(2) by blast
    qed
    have curok: "case nextPuyo s of None \<Rightarrow> True | Some q \<Rightarrow> piece_ok g' q"
      using nxt by (auto split: option.splits intro: queued_ok_piece_ok)
    show ?thesis
      using False wf' top' curok
      by (auto simp: game_inv_def queued_ok_generatePuyoPair split: option.splits)
  qed
  then show ?thesis using place by blast
qed

lemma movePuyo_inv:
  assumes "game_inv s"
  shows "\<exists>s'. movePuyo c1 c2 d s = Some (Inr s') \<and> game_inv s'"
proof (cases "currentPuyo s")
  case None
  then show ?thesis using assms by (simp add: movePuyo_def)
next
  case (Some p)
  show ?thesis
  proof (cases "gameState s \<noteq> Active \<or> isPaused s")
    case True
    then show ?thesis using assms Some by (auto simp: movePuyo_def)
  next
    case False
    then have act: "gameState s = Active" "\<not> isPaused s" by simp_all
    show ?thesis
    proof (cases "isValidMove (grid s) (shiftPuyo d p)")
      case True
      have "piece_ok (grid s) p" using assms act Some by (simp add: game_inv_def)
      then have "piece_ok (grid s) (shiftPuyo d p)" using True by (rule piece_ok_shiftPuyo)
      then have "game_inv (s\<lparr>currentPuyo := Some (shiftPuyo d p)\<rparr>)"
        using assms by (simp add: game_inv_def)
      then show ?thesis using Some act True by (simp add: movePuyo_def Let_def)
    next
      case invalid: False
      show ?thesis
      proof (cases "d = Down")
        case True
        from landing_inv [OF assms Some act(1), of c1 c2] invalid True
        obtain s' where "placePuyo c1 c2 s = Some (Inr s')" "game_inv s'" by auto
        then show ?thesis using Some act invalid True by (simp add: movePuyo_def Let_def)
      next
        case False
        then show ?thesis using assms Some act invalid by (simp add: movePuyo_def Let_def)
      qed
    qed
  qed
qed

lemma handleEvent_inv:
  assumes "game_inv s" "handleEvent e s = Some (Inr s')"
  shows "game_inv s'"
proof (cases e)
  case (StartGame c1 c2 c3 c4)
  then show ?thesis using assms(2) game_inv_startGame by auto
next
  case TogglePause
  then show ?thesis using assms game_inv_togglePause by auto
next
  case (Move d c1 c2)
  then show ?thesis using assms movePuyo_inv [OF assms(1), of c1 c2 d] by auto
next
  case (Rotate r)
  then show ?thesis using assms game_inv_rotatePuyo by auto
qed

lemma reachable_inv: "reachable s \<Longrightarrow> game_inv s"
  by (induction rule: reachable.induct) (auto intro: game_inv_initialGame handleEvent_inv)

lemma reachable_runEvents:
  "reachable s \<Longrightarrow> runEvents es s = Some (Inr s') \<Longrightarrow> reachable s'"
proof (induction es arbitrary: s)
  case Nil
  then show ?case by simp
next
  case (Cons e es)
  then show ?case
    by (auto split: option.splits sum.splits intro: reachable_step)
qed

text \<open>
  \<open>placePuyo\<close> tests no index itself. In a state forced to hold a piece in its spawn
  position over an occupied cell, the down request is rejected, the second cell of the
  commit is in row -1 and the assignment to it throws. The invariant of the reachable
  states excludes this state.
\<close>

lemma placePuyo_forced_blocked_spawn:
  "currentPuyo example_blocked_spawn = Some (generatePuyoPair Green Yellow)
   \<and> gameState example_blocked_spawn = Active \<and> \<not> isPaused example_blocked_spawn
   \<and> wf_grid (grid example_blocked_spawn)
   \<and> puyo_y (generatePuyoPair Green Yellow) = 0 \<and> rotation (generatePuyoPair Green Yellow) = 0
   \<and> \<not> isValidMove (grid example_blocked_spawn) (shiftPuyo Down (generatePuyoPair Green Yellow))
   \<and> getSecondPuyoPosition (puyo_x (generatePuyoPair Green Yellow))
        (puyo_y (generatePuyoPair Green Yellow)) (rotation (generatePuyoPair Green Yellow)) = (2, - 1)
   \<and> \<not> in_bounds 2 (- 1)
   \<and> movePuyo Red Red Down example_blocked_spawn = Some (Inl TypeError)"
proof -
  have g: "grid example_blocked_spawn = example_tall_grid" by (simp add: example_blocked_spawn_def)
  have blocked: "\<not> isValidMove (grid example_blocked_spawn) (shiftPuyo Down (generatePuyoPair Green Yellow))"
    unfolding g
    by (simp add: isValidMove_def shiftPuyo_def generatePuyoPair_def cellAt_def example_tall_grid_def)
  have commit: "commitPuyo example_tall_grid (generatePuyoPair Green Yellow) = Inl TypeError"
    by (simp add: commitPuyo_def generatePuyoPair_def writeCell_def example_tall_grid_def Let_def)
  have "movePuyo Red Red Down example_blocked_spawn = Some (Inl TypeError)"
    using blocked commit g
    by (simp add: movePuyo_def placePuyo_def example_blocked_spawn_def Let_def)
  then show ?thesis
    using blocked wf_example_tall_grid g
    by (simp add: example_blocked_spawn_def generatePuyoPair_def in_bounds_iff)
qed

lemma example_blocked_spawn_unreachable: "\<not> reachable example_blocked_spawn"
proof
  assume "reachable example_blocked_spawn"
  then have "game_inv example_blocked_spawn" by (rule reachable_inv)
  then have "top_rows_empty example_tall_grid"
    by (simp add: game_inv_def example_blocked_spawn_def)
  then have "cellAt example_tall_grid 2 1 = None"
    by (simp add: top_rows_empty_def GRID_COLS_def)
  then show False by (simp add: cellAt_def example_tall_grid_def)
qed

text \<open>
  C10. Whenever a falling piece is committed into the grid on landing, that is, in
  every state the component reaches in which a down request is rejected, the anchor
  cell and the computed second cell of the piece both lie inside the 12 by 6 grid, so
  the commit writes only cells of the grid and the request returns normally. A piece
  in row 0 with orientation 0, whose second cell would be in row -1, does not land:
  while the game is active the rows 0 and 1 are empty, so the down request of a
  freshly spawned piece is accepted.
\<close>

theorem reachable_landing_commit_in_bounds:
  assumes "reachable s" "currentPuyo s = Some p" "gameState s = Active" "\<not> isPaused s"
    and "\<not> isValidMove (grid s) (shiftPuyo Down p)"
    and "getSecondPuyoPosition (puyo_x p) (puyo_y p) (rotation p) = (x2, y2)"
  shows "in_bounds (puyo_x p) (puyo_y p) \<and> in_bounds x2 y2 \<and>
         \<not> (puyo_y p = 0 \<and> rotation p = 0) \<and>
         (\<exists>s'. movePuyo c1 c2 Down s = Some (Inr s') \<and> reachable s')"
proof -
  have inv: "game_inv s" using assms(1) by (rule reachable_inv)
  then have top: "top_rows_empty (grid s)" and ok: "piece_ok (grid s) p"
    using assms(2,3) by (simp_all add: game_inv_def)
  have valid: "isValidMove (grid s) p" using ok top assms(5) by (rule landing_piece_valid)
  note b = isValidMove_bounds [OF valid assms(6)]
  have "\<not> (puyo_y p = 0 \<and> rotation p = 0)"
  proof
    assume "puyo_y p = 0 \<and> rotation p = 0"
    then have "y2 = - 1" using assms(6) by simp
    then show False using b(2) by (simp add: in_bounds_iff)
  qed
  moreover obtain s' where mv: "movePuyo c1 c2 Down s = Some (Inr s')"
    using movePuyo_inv [OF inv, of c1 c2 Down] by blast
  moreover have "reachable s'"
    using assms(1) mv reachable_step [of s "Move Down c1 c2" s'] by simp
  ultimately show ?thesis using b(1,2) by blast
qed

lemma reachable_example_floor_game: "reachable example_floor_game"
proof -
  have "runEvents (StartGame Red Green Blue Yellow # replicate 11 (Move Down Red Red)) initialGame
        = Some (Inr example_floor_game)"
    by code_simp
  with reachable_init show ?thesis by (rule reachable_runEvents)
qed

theorem reachable_landing_commit_in_bounds_witness:
  "reachable example_floor_game
   \<and> currentPuyo example_floor_game
       = Some \<lparr>color1 = Some Red, color2 = Some Green, puyo_x = 2, puyo_y = 11, rotation = 0\<rparr>
   \<and> gameState example_floor_game = Active \<and> \<not> isPaused example_floor_game
   \<and> \<not> isValidMove (grid example_floor_game)
         (shiftPuyo Down \<lparr>color1 = Some Red, color2 = Some Green, puyo_x = 2, puyo_y = 11, rotation = 0\<rparr>)
   \<and> getSecondPuyoPosition 2 11 0 = (2, 10)
   \<and> in_bounds 2 11 \<and> in_bounds 2 10
   \<and> (\<exists>s'. movePuyo Red Red Down example_floor_game = Some (Inr s') \<and> reachable s')"
proof -
  let ?p = "\<lparr>color1 = Some Red, color2 = Some Green, puyo_x = 2, puyo_y = 11, rotation = 0\<rparr>"
  have cur: "currentPuyo example_floor_game = Some ?p" by (simp add: example_floor_game_def)
  have act: "gameState example_floor_game = Active" "\<not> isPaused example_floor_game"
    by (simp_all add: example_floor_game_def)
  have blocked: "\<not> isValidMove (grid example_floor_game) (shiftPuyo Down ?p)"
    by (simp add: isValidMove_def shiftPuyo_def GRID_ROWS_def)
  have sec: "getSecondPuyoPosition (puyo_x ?p) (puyo_y ?p) (rotation ?p) = (2, 10)" by simp
  from reachable_landing_commit_in_bounds
         [OF reachable_example_floor_game cur act blocked sec, of Red Red]
  show ?thesis using reachable_example_floor_game cur act blocked by simp
qed

section \<open>Landing commits the piece where it stands\<close>

declare resolveLoop_unfold [code]

lemma reachable_example_landing_game: "reachable example_landing_game"
proof -
  have "runEvents example_landing_events initialGame = Some (Inr example_landing_game)"
    by code_simp
  with reachable_init show ?thesis by (rule reachable_runEvents)
qed

text \<open>
  C4. In every state of the game, when a down request is rejected by the validator,
  the falling piece is committed at its current position and not at the rejected
  target: the grid handed to the resolver has \<open>color1\<close> at the anchor and \<open>color2\<close>
  at the computed second cell of the piece as it stood before the request, and every
  other cell as before; the falling piece is then replaced by the queued next piece,
  and a fresh next piece is queued.
\<close>

theorem blocked_down_commits_current_position:
  assumes "reachable s" "currentPuyo s = Some p" "gameState s = Active" "\<not> isPaused s"
    and "\<not> isValidMove (grid s) (shiftPuyo Down p)"
    and "getSecondPuyoPosition (puyo_x p) (puyo_y p) (rotation p) = (x2, y2)"
  shows "\<exists>placed s'. commitPuyo (grid s) p = Inr placed \<and>
           cellAt placed (puyo_x p) (puyo_y p) = color1 p \<and> cellAt placed x2 y2 = color2 p \<and>
           (\<forall>x y. in_bounds x y \<and> (x, y) \<noteq> (puyo_x p, puyo_y p) \<and> (x, y) \<noteq> (x2, y2) \<longrightarrow>
              cellAt placed x y = cellAt (grid s) x y) \<and>
           checkForMatches c1 c2 placed (s\<lparr>grid := placed, currentPuyo := None\<rparr>) = Some s' \<and>
           movePuyo c1 c2 Down s = Some (Inr s') \<and>
           currentPuyo s' = nextPuyo s \<and> nextPuyo s' = Some (generatePuyoPair c1 c2)"
proof -
  have inv: "game_inv s" using assms(1) by (rule reachable_inv)
  then have wf: "wf_grid (grid s)" and top: "top_rows_empty (grid s)" and ok: "piece_ok (grid s) p"
    using assms(2,3) by (simp_all add: game_inv_def)
  have rot: "rotation p \<in> {0, 1, 2, 3}" using ok unfolding piece_ok_def by blast
  have valid: "isValidMove (grid s) p" using ok top assms(5) by (rule landing_piece_valid)
  note b = isValidMove_bounds [OF valid assms(6)]
  show ?thesis
    by (rule blocked_down_commits_in_bounds [OF assms(2,3,4) wf rot b(1) assms(6) b(2) assms(5)])
qed

theorem blocked_down_commits_current_position_witness:
  "reachable example_landing_game
   \<and> currentPuyo example_landing_game =
       Some \<lparr>color1 = Some Green, color2 = Some Yellow, puyo_x = 2, puyo_y = 5, rotation = 0\<rparr>
   \<and> gameState example_landing_game = Active \<and> \<not> isPaused example_landing_game
   \<and> cellAt (grid example_landing_game) 2 6 = Some Blue
   \<and> \<not> isValidMove (grid example_landing_game)
         (shiftPuyo Down \<lparr>color1 = Some Green, color2 = Some Yellow, puyo_x = 2, puyo_y = 5, rotation = 0\<rparr>)
   \<and> getSecondPuyoPosition 2 5 0 = (2, 4)
   \<and> commitPuyo (grid example_landing_game)
        \<lparr>color1 = Some Green, color2 = Some Yellow, puyo_x = 2, puyo_y = 5, rotation = 0\<rparr>
       = Inr example_landed_grid
   \<and> cellAt example_landed_grid 2 5 = Some Green \<and> cellAt example_landed_grid 2 4 = Some Yellow
   \<and> (\<exists>s'. movePuyo Red Red Down example_landing_game = Some (Inr s')
          \<and> currentPuyo s' = Some (generatePuyoPair Blue Blue)
          \<and> nextPuyo s' = Some (generatePuyoPair Red Red))"
proof -
  let ?p = "\<lparr>color1 = Some Green, color2 = Some Yellow, puyo_x = 2, puyo_y = 5, rotation = 0\<rparr>"
  have cur: "currentPuyo example_landing_game = Some ?p" by (simp add: example_landing_game_def)
  have act: "gameState example_landing_game = Active" "\<not> isPaused example_landing_game"
    by (simp_all add: example_landing_game_def)
  have g: "grid example_landing_game = example_stack_grid" by (simp add: example_landing_game_def)
  have occ: "cellAt (grid example_landing_game) 2 6 = Some Blue"
    unfolding g by (simp add: cellAt_def example_stack_grid_def)
  have sec: "getSecondPuyoPosition (puyo_x ?p) (puyo_y ?p) (rotation ?p) = (2, 4)" by simp
  have blocked: "\<not> isValidMove (grid example_landing_game) (shiftPuyo Down ?p)"
    by (simp add: isValidMove_def shiftPuyo_def g cellAt_def example_stack_grid_def)
  have placed: "commitPuyo (grid example_landing_game) ?p = Inr example_landed_grid"
    unfolding g by code_simp
  have cells: "cellAt example_landed_grid 2 5 = Some Green" "cellAt example_landed_grid 2 4 = Some Yellow"
    by (simp_all add: cellAt_def example_landed_grid_def)
  have nx: "nextPuyo example_landing_game = Some (generatePuyoPair Blue Blue)"
    by (simp add: example_landing_game_def)
  from blocked_down_commits_current_position
         [OF reachable_example_landing_game cur act blocked sec, of Red Red]
  show ?thesis
    using reachable_example_landing_game cur act occ blocked placed cells nx by auto
qed

end
